theory Spec2Isabelle
  imports Complex_Main "HOL-Library.Word"
begin

unbundle bit_operations_syntax

section \<open>The arithmetic the program runs on\<close>

text \<open>
  \<^verbatim>\<open>q1.c\<close> computes on C \<^verbatim>\<open>double\<close>s. Every function of the program is embedded
  once, over an arbitrary carrier \<open>'a\<close>, and takes the arithmetic it runs on as its
  first argument: the conversion of a decimal literal of the source text, the three
  operators \<^verbatim>\<open>+\<close>, \<^verbatim>\<open>-\<close>, \<^verbatim>\<open>*\<close> the program uses, and the comparison \<^verbatim>\<open>==\<close>.
  Two arithmetics are given below: \<open>exact\<close> (the real numbers, no rounding) and
  \<open>ieee\<close> (IEEE 754 binary64 with round-to-nearest-even, what a C \<^verbatim>\<open>double\<close> is).
\<close>

record 'a arith =
  lit :: "rat \<Rightarrow> 'a"
  add :: "'a \<Rightarrow> 'a \<Rightarrow> 'a"
  sub :: "'a \<Rightarrow> 'a \<Rightarrow> 'a"
  mul :: "'a \<Rightarrow> 'a \<Rightarrow> 'a"
  eq :: "'a \<Rightarrow> 'a \<Rightarrow> bool"

definition exact :: "real arith" where
  "exact = \<lparr>lit = of_rat, add = (+), sub = (-), mul = (*), eq = (=)\<rparr>"

section \<open>IEEE 754 binary64\<close>

text \<open>
  A C \<^verbatim>\<open>double\<close> is an IEEE 754 binary64 value: a sign bit, an 11-bit biased exponent
  and a 52-bit fraction. Every operation returns the exact result rounded to the nearest
  representable value, ties to the value with an even significand (the default rounding
  mode, which the program never changes). The program is taken as compiled the way its
  header says (\<^verbatim>\<open>-std=c11\<close>, no contraction of \<^verbatim>\<open>a * b + c\<close> into one fused
  operation) for a target that evaluates \<^verbatim>\<open>double\<close> expressions in \<^verbatim>\<open>double\<close>.
\<close>

record double =
  sign :: bool
  expo :: "11 word"
  frac :: "52 word"

definition isnan :: "double \<Rightarrow> bool" where
  "isnan d \<longleftrightarrow> expo d = 2047 \<and> frac d \<noteq> 0"

definition isinf :: "double \<Rightarrow> bool" where
  "isinf d \<longleftrightarrow> expo d = 2047 \<and> frac d = 0"

definition isfinite :: "double \<Rightarrow> bool" where
  "isfinite d \<longleftrightarrow> expo d \<noteq> 2047"

definition fp_zero :: "double \<Rightarrow> bool" where
  "fp_zero d \<longleftrightarrow> expo d = 0 \<and> frac d = 0"

text \<open>
  A finite double is \<open>\<plusminus> mant \<times> 2\<^bsup>expn\<^esup>\<close>: the significand as an integer below
  \<open>2\<^bsup>53\<^esup>\<close> (with the hidden bit unless the exponent field is zero) and the exponent
  of its last bit.
\<close>

definition mant :: "double \<Rightarrow> int" where
  "mant d = (if expo d = 0 then uint (frac d) else 2 ^ 52 + uint (frac d))"

definition expn :: "double \<Rightarrow> int" where
  "expn d = (if expo d = 0 then - 1074 else uint (expo d) - 1075)"

definition signif :: "double \<Rightarrow> int" where
  "signif d = (if sign d then - mant d else mant d)"

definition valof :: "double \<Rightarrow> real" where
  "valof d = of_int (signif d) * 2 powi expn d"

text \<open>
  The standard leaves the sign and the payload of a NaN result open, and \<^verbatim>\<open>printf\<close>
  shows the sign, so the model follows the target the program is built for, x86-64, where
  \<^verbatim>\<open>double\<close> arithmetic is done by the scalar SSE2 instructions: an invalid operation
  (the sum of two infinities of opposite signs, zero times an infinity) gives the default
  NaN, which is quiet, has the sign bit set and no payload; an operation on a NaN gives
  that operand, made quiet, with its sign and payload, also when it is subtracted; when
  both operands are NaNs it is the first operand of the instruction, taken here to be the
  left operand of the source.
\<close>

definition default_nan :: double where
  "default_nan = \<lparr>sign = True, expo = 2047, frac = 2 ^ 51\<rparr>"

definition quiet :: "double \<Rightarrow> double" where
  "quiet d = d\<lparr>frac := frac d OR 2 ^ 51\<rparr>"

definition infinity :: "bool \<Rightarrow> double" where
  "infinity s = \<lparr>sign = s, expo = 2047, frac = 0\<rparr>"

definition zero :: "bool \<Rightarrow> double" where
  "zero s = \<lparr>sign = s, expo = 0, frac = 0\<rparr>"

definition pack :: "bool \<Rightarrow> int \<Rightarrow> int \<Rightarrow> double" where
  "pack s m e =
     \<lparr>sign = s,
      expo = (if m < 2 ^ 52 then 0 else of_int (e + 1075)),
      frac = of_int (m mod 2 ^ 52)\<rparr>"

text \<open>The number of binary digits of a positive integer.\<close>

function bits :: "int \<Rightarrow> int" where
  "bits n = (if n \<le> 0 then 0 else 1 + bits (n div 2))"
  by pat_completeness auto
termination
  by (relation "measure nat") auto

declare bits.simps [simp del]

text \<open>\<open>flog2 p q\<close> is \<open>\<lfloor>log\<^sub>2 (p / q)\<rfloor>\<close> for positive \<open>p\<close> and \<open>q\<close>.\<close>

definition flog2 :: "int \<Rightarrow> int \<Rightarrow> int" where
  "flog2 p q =
     (let k = bits p - bits q in
      if (if 0 \<le> k then q * 2 ^ nat k \<le> p else q \<le> p * 2 ^ nat (- k)) then k else k - 1)"

text \<open>
  \<open>round_double s p q e0\<close> rounds the exact value \<open>\<plusminus> (p / q) \<times> 2\<^bsup>e0\<^esup>\<close> (\<open>p \<ge> 0\<close>,
  \<open>q > 0\<close>, negative when \<open>s\<close>) to binary64: the exponent \<open>e\<close> of the last kept bit is
  52 below the leading bit, but not below that of the subnormals; the significand is the
  quotient by \<open>2\<^bsup>e\<^esup>\<close>, rounded to nearest, ties to even; a significand that rounds up
  to \<open>2\<^bsup>53\<^esup>\<close> moves to the next exponent; an exponent beyond the largest one
  overflows to infinity.
\<close>

definition round_double :: "bool \<Rightarrow> int \<Rightarrow> int \<Rightarrow> int \<Rightarrow> double" where
  "round_double s p q e0 =
     (if p = 0 then zero s else
      let e = max (flog2 p q + e0 - 52) (- 1074);
          n = (if e0 \<le> e then p else p * 2 ^ nat (e0 - e));
          d = (if e0 \<le> e then q * 2 ^ nat (e - e0) else q);
          m = n div d;
          r = n mod d;
          m = (if d < 2 * r \<or> (2 * r = d \<and> odd m) then m + 1 else m);
          e = (if m = 2 ^ 53 then e + 1 else e);
          m = (if m = 2 ^ 53 then 2 ^ 52 else m)
      in if 971 < e then infinity s else pack s m e)"

definition fadd :: "double \<Rightarrow> double \<Rightarrow> double" where
  "fadd x y =
     (if isnan x then quiet x
      else if isnan y then quiet y
      else if isinf x then (if isinf y \<and> sign x \<noteq> sign y then default_nan else x)
      else if isinf y then y
      else
        let e = min (expn x) (expn y);
            t = signif x * 2 ^ nat (expn x - e) + signif y * 2 ^ nat (expn y - e)
        in if t = 0 then zero (sign x \<and> sign y)
           else round_double (t < 0) \<bar>t\<bar> 1 e)"

definition fneg :: "double \<Rightarrow> double" where
  "fneg x = x\<lparr>sign := \<not> sign x\<rparr>"

definition fsub :: "double \<Rightarrow> double \<Rightarrow> double" where
  "fsub x y =
     (if isnan x then quiet x
      else if isnan y then quiet y
      else fadd x (fneg y))"

definition fmul :: "double \<Rightarrow> double \<Rightarrow> double" where
  "fmul x y =
     (if isnan x then quiet x
      else if isnan y then quiet y
      else if isinf x \<or> isinf y then
        (if fp_zero x \<or> fp_zero y then default_nan else infinity (sign x \<noteq> sign y))
      else round_double (sign x \<noteq> sign y) (mant x * mant y) 1 (expn x + expn y))"

text \<open>C's \<^verbatim>\<open>==\<close>: a NaN equals nothing, and the two zeros are equal.\<close>

definition feq :: "double \<Rightarrow> double \<Rightarrow> bool" where
  "feq x y \<longleftrightarrow> \<not> isnan x \<and> \<not> isnan y \<and> (x = y \<or> (fp_zero x \<and> fp_zero y))"

text \<open>A decimal literal of the source text, correctly rounded.\<close>

definition literal :: "rat \<Rightarrow> double" where
  "literal r = (case quotient_of r of (p, q) \<Rightarrow> round_double (p < 0) \<bar>p\<bar> q 0)"

definition ieee :: "double arith" where
  "ieee = \<lparr>lit = literal, add = fadd, sub = fsub, mul = fmul, eq = feq\<rparr>"

section \<open>The program\<close>

subsection \<open>Constants (q1.c, lines 30-31)\<close>

definition stepLimit :: int where
  "stepLimit = 1000"

definition stepSize :: "'a arith \<Rightarrow> 'a" where
  "stepSize ar = lit ar (1 / 1000)"

subsection \<open>func, funcPrime, extrapolate (q1.c, lines 86-112)\<close>

definition func :: "'a arith \<Rightarrow> 'a \<Rightarrow> 'a \<Rightarrow> 'a \<Rightarrow> 'a \<Rightarrow> 'a" where
  "func ar a b c x =
     (let fval = a;
          fval = add ar (mul ar fval x) b;
          fval = add ar (mul ar fval x) c
      in fval)"

definition funcPrime :: "'a arith \<Rightarrow> 'a \<Rightarrow> 'a \<Rightarrow> 'a \<Rightarrow> 'a" where
  "funcPrime ar a b x =
     (let slopeval = mul ar (lit ar 2) a;
          slopeval = add ar (mul ar slopeval x) b
      in slopeval)"

definition extrapolate :: "'a arith \<Rightarrow> 'a \<Rightarrow> 'a \<Rightarrow> 'a \<Rightarrow> 'a \<Rightarrow> 'a \<Rightarrow> 'a" where
  "extrapolate ar a b c x h =
     (let slope = funcPrime ar a b (add ar x h);
          vchange = mul ar h slope;
          estimate = add ar (func ar a b c x) vchange
      in estimate)"

subsection \<open>Standard output and the static flag\<close>

text \<open>
  Standard output is the list of the \<^verbatim>\<open>printf\<close> calls made so far, each with its format
  string and its \<^verbatim>\<open>double\<close> arguments. The static local \<^verbatim>\<open>firstCall\<close> of
  \<^verbatim>\<open>writeExtrapolation\<close> lives as long as the process does, so it is a field of the
  process state next to the output.
\<close>

datatype 'a printf = Printf string "'a list"

record 'a process =
  firstCall :: bool
  out :: "'a printf list"

definition process_start :: "'a process" where
  "process_start = \<lparr>firstCall = True, out = []\<rparr>"

definition newline :: char where
  "newline = CHR 0x0A"

definition usage_line1 :: string where
  "usage_line1 = ''Invocation: q1 a b c x'' @ [newline]"

definition usage_line2 :: string where
  "usage_line2 = ''   where a, b, and c are decimal values and a is not 0.'' @ [newline]"

definition zero_message :: string where
  "zero_message = ''a must not be zero!'' @ [newline]"

definition header_line1 :: string where
  "header_line1 = ''  x + h      approximation    f(x + h)     error'' @ [newline]"

definition header_line2 :: string where
  "header_line2 = ''------------------------------------------------'' @ [newline]"

definition row_format :: string where
  "row_format = ''%7.3f%19.3f%12.3f%10.3f'' @ [newline]"

definition print :: "'a printf \<Rightarrow> 'a process \<Rightarrow> 'a process" where
  "print p st = st\<lparr>out := out st @ [p]\<rparr>"

subsection \<open>writeExtrapolation (q1.c, lines 116-132)\<close>

definition writeExtrapolation :: "'a arith \<Rightarrow> 'a \<Rightarrow> 'a \<Rightarrow> 'a \<Rightarrow> 'a process \<Rightarrow> 'a process" where
  "writeExtrapolation ar xh approx direct st =
     (let st = (if firstCall st
                then (print (Printf header_line2 []) (print (Printf header_line1 []) st))
                       \<lparr>firstCall := False\<rparr>
                else st)
      in print (Printf row_format [xh, approx, direct, sub ar direct approx]) st)"

subsection \<open>main (q1.c, lines 40-82)\<close>

text \<open>
  The body of the \<^verbatim>\<open>for\<close> loop of \<^verbatim>\<open>main\<close>, from the loop counter \<open>i\<close>, the offset
  \<open>h\<close> and the process state at the loop head to the process state at the exit.
  The counter never passes \<open>stepLimit\<close>, far below \<^verbatim>\<open>INT_MAX\<close>, so it is an \<open>int\<close>.
\<close>

function steps :: "'a arith \<Rightarrow> 'a \<Rightarrow> 'a \<Rightarrow> 'a \<Rightarrow> 'a \<Rightarrow> int \<Rightarrow> 'a \<Rightarrow> 'a process \<Rightarrow> 'a process" where
  "steps ar a b c x i h st =
     (if i < stepLimit then
        (let approximation = extrapolate ar a b c x h;
             funcval = func ar a b c (add ar x h);
             st = writeExtrapolation ar (add ar x h) approximation funcval st;
             h = add ar h (stepSize ar)
         in steps ar a b c x (i + 1) h st)
      else st)"
  by pat_completeness auto
termination
  by (relation "measure (\<lambda>(ar, a, b, c, x, i, h, st). nat (stepLimit - i))") auto

declare steps.simps [simp del]

text \<open>
  \<^verbatim>\<open>main\<close> gets \<^verbatim>\<open>argv\<close> as the list of its strings, program name first, so that
  \<^verbatim>\<open>argc\<close> is its length; \<^verbatim>\<open>atof\<close> of the C library is a parameter. The result is
  the exit code and the process state at exit.
\<close>

definition main :: "'a arith \<Rightarrow> (string \<Rightarrow> 'a) \<Rightarrow> string list \<Rightarrow> int \<times> 'a process" where
  "main ar atof argv =
     (let argc = int (length argv); st = process_start in
      if argc \<noteq> 5 then
        (1, print (Printf usage_line2 []) (print (Printf usage_line1 []) st))
      else
        (let a = atof (argv ! 1);
             b = atof (argv ! 2);
             c = atof (argv ! 3);
             x = atof (argv ! 4)
         in if eq ar a (lit ar 0) then (2, print (Printf zero_message []) st)
            else (let h = lit ar 0 in (0, steps ar a b c x 0 h st))))"

section \<open>The C library functions the program calls\<close>

subsection \<open>atof\<close>

definition isspace :: "char \<Rightarrow> bool" where
  "isspace c \<longleftrightarrow> c \<in> set [CHR '' '', CHR 0x09, CHR 0x0A, CHR 0x0B, CHR 0x0C, CHR 0x0D]"

definition isdigit :: "char \<Rightarrow> bool" where
  "isdigit c \<longleftrightarrow> c \<in> set ''0123456789''"

definition isxdigit :: "char \<Rightarrow> bool" where
  "isxdigit c \<longleftrightarrow> c \<in> set ''0123456789abcdefABCDEF''"

definition digit :: "char \<Rightarrow> int" where
  "digit c =
     (if c \<in> set ''abcdef'' then of_char c - 87
      else if c \<in> set ''ABCDEF'' then of_char c - 55
      else of_char c - 48)"

text \<open>
  \<open>prefix_ci ps s\<close>: the string \<open>s\<close> begins with the letters \<open>ps\<close>, each given in lower
  and in upper case.
\<close>

fun prefix_ci :: "(char \<times> char) list \<Rightarrow> string \<Rightarrow> bool" where
  "prefix_ci [] s = True"
| "prefix_ci ((l, u) # ps) [] = False"
| "prefix_ci ((l, u) # ps) (c # cs) = ((c = l \<or> c = u) \<and> prefix_ci ps cs)"

text \<open>
  \<open>digits b ok s v n\<close> reads the longest run of digits (those that \<open>ok\<close> accepts) at the
  head of \<open>s\<close> in base \<open>b\<close>: the value read after \<open>v\<close>, the number of digits read
  after \<open>n\<close>, and the rest of the string.
\<close>

fun digits :: "int \<Rightarrow> (char \<Rightarrow> bool) \<Rightarrow> string \<Rightarrow> int \<Rightarrow> nat \<Rightarrow> int \<times> nat \<times> string" where
  "digits b ok [] v n = (v, n, [])"
| "digits b ok (c # cs) v n =
     (if ok c then digits b ok cs (b * v + digit c) (Suc n) else (v, n, c # cs))"

fun sign_prefix :: "string \<Rightarrow> bool \<times> string" where
  "sign_prefix [] = (False, [])"
| "sign_prefix (c # cs) =
     (if c = CHR ''-'' then (True, cs) else if c = CHR ''+'' then (False, cs) else (False, c # cs))"

text \<open>
  The digits of a significand in base \<open>b\<close>, with an optional radix point: all the digits
  as one integer, how many of them follow the point, and the rest; nothing when there
  is no digit at all.
\<close>

definition significand :: "int \<Rightarrow> (char \<Rightarrow> bool) \<Rightarrow> string \<Rightarrow> (int \<times> nat \<times> string) option" where
  "significand b ok s =
     (case digits b ok s 0 0 of (v, ni, r) \<Rightarrow>
        (case r of
           c # r' \<Rightarrow>
             (if c = CHR ''.'' then
                (case digits b ok r' v 0 of (v', nf, r'') \<Rightarrow>
                   if ni + nf = 0 then None else Some (v', nf, r''))
              else if ni = 0 then None else Some (v, 0, r))
         | [] \<Rightarrow> if ni = 0 then None else Some (v, 0, r)))"

text \<open>
  An optional exponent part introduced by one of the letters \<open>cs\<close>: a sign and at least
  one decimal digit; it counts as 0 when it is absent or incomplete.
\<close>

definition exponent :: "string \<Rightarrow> string \<Rightarrow> int" where
  "exponent cs s =
     (case s of
        [] \<Rightarrow> 0
      | c # r \<Rightarrow>
          if c \<in> set cs then
            (case sign_prefix r of (neg, r') \<Rightarrow>
               (case digits 10 isdigit r' 0 0 of (v, n, _) \<Rightarrow>
                  if n = 0 then 0 else if neg then - v else v))
          else 0)"

text \<open>
  \<^verbatim>\<open>atof(s)\<close> is \<^verbatim>\<open>strtod(s, NULL)\<close> (C11 7.22.1.2-3): white space is skipped, then the
  longest prefix that is a floating constant is converted: an optional sign, then a
  hexadecimal constant (\<^verbatim>\<open>0x\<close>, hexadecimal digits with an optional point, an optional
  binary exponent), a decimal constant (digits with an optional point, an optional
  decimal exponent), \<^verbatim>\<open>inf\<close> or \<^verbatim>\<open>nan\<close> in any case. The value is correctly rounded. When
  no prefix has this form, no conversion is performed and the result is zero. The NaN is
  quiet and carries the sign of the text; a payload written in parentheses after
  \<^verbatim>\<open>nan\<close> is not read by the model (no operation and no output of the program
  depends on it).
\<close>

definition atof_ieee :: "string \<Rightarrow> double" where
  "atof_ieee s =
     (case sign_prefix (dropWhile isspace s) of (neg, t) \<Rightarrow>
        (case (if prefix_ci [(CHR ''0'', CHR ''0''), (CHR ''x'', CHR ''X'')] t
               then significand 16 isxdigit (drop 2 t) else None) of
           Some (m, nf, r) \<Rightarrow> round_double neg m 1 (exponent ''pP'' r - 4 * int nf)
         | None \<Rightarrow>
             (case significand 10 isdigit t of
                Some (m, nf, r) \<Rightarrow>
                  (let e = exponent ''eE'' r - int nf in
                   if 0 \<le> e then round_double neg (m * 10 ^ nat e) 1 0
                   else round_double neg m (10 ^ nat (- e)) 0)
              | None \<Rightarrow>
                  if prefix_ci [(CHR ''i'', CHR ''I''), (CHR ''n'', CHR ''N''), (CHR ''f'', CHR ''F'')] t
                  then infinity neg
                  else if prefix_ci [(CHR ''n'', CHR ''N''), (CHR ''a'', CHR ''A''), (CHR ''n'', CHR ''N'')] t
                  then \<lparr>sign = neg, expo = 2047, frac = 2 ^ 51\<rparr>
                  else zero False)))"

subsection \<open>printf\<close>

text \<open>
  The conversion specifications the program uses: ordinary characters, which are copied,
  and \<^verbatim>\<open>%W.Pf\<close> with an optional minimum field width \<open>W\<close> and an optional precision
  \<open>P\<close> (6 when absent), without flags. \<open>conversions\<close> reads a format string character
  by character; it gives nothing for a format outside of this subset.
\<close>

datatype directive = Chr char | Fixed nat nat

datatype scan = Text | Width nat | Precision nat nat

fun conversions :: "scan \<Rightarrow> string \<Rightarrow> directive list option" where
  "conversions Text [] = Some []"
| "conversions Text (c # cs) =
     (if c = CHR ''%'' then conversions (Width 0) cs
      else map_option ((#) (Chr c)) (conversions Text cs))"
| "conversions (Width w) [] = None"
| "conversions (Width w) (c # cs) =
     (if isdigit c then conversions (Width (10 * w + nat (digit c))) cs
      else if c = CHR ''.'' then conversions (Precision w 0) cs
      else if c = CHR ''f'' then map_option ((#) (Fixed w 6)) (conversions Text cs)
      else None)"
| "conversions (Precision w p) [] = None"
| "conversions (Precision w p) (c # cs) =
     (if isdigit c then conversions (Precision w (10 * p + nat (digit c))) cs
      else if c = CHR ''f'' then map_option ((#) (Fixed w p)) (conversions Text cs)
      else None)"

text \<open>
  The digits of a finite double in a conversion with precision \<open>p\<close>: its absolute value
  times \<open>10\<^bsup>p\<^esup>\<close>, rounded to the nearest integer, ties to even (the value is converted
  exactly, as the C library does in the default rounding mode).
\<close>

definition decimals :: "nat \<Rightarrow> double \<Rightarrow> int" where
  "decimals p d =
     (let n = (if 0 \<le> expn d then mant d * 10 ^ p * 2 ^ nat (expn d) else mant d * 10 ^ p);
          q = (if 0 \<le> expn d then 1 else 2 ^ nat (- expn d));
          m = n div q;
          r = n mod q
      in if q < 2 * r \<or> (2 * r = q \<and> odd m) then m + 1 else m)"

text \<open>The decimal digits of a natural number, without leading zeros.\<close>

function dec :: "int \<Rightarrow> string" where
  "dec n =
     (if n < 10 then [''0123456789'' ! nat n]
      else dec (n div 10) @ [''0123456789'' ! nat (n mod 10)])"
  by pat_completeness auto
termination
  by (relation "measure nat") auto

declare dec.simps [simp del]

text \<open>
  \<^verbatim>\<open>%.pf\<close>: a minus sign when the sign bit is set, then \<^verbatim>\<open>nan\<close>, \<^verbatim>\<open>inf\<close>, or the digits
  with a point before the last \<open>p\<close> of them. \<^verbatim>\<open>%w.pf\<close> pads it with spaces on the left up
  to the minimum field width \<open>w\<close>.
\<close>

definition fixed :: "nat \<Rightarrow> double \<Rightarrow> string" where
  "fixed p d =
     (if sign d then ''-'' else '''') @
     (if isnan d then ''nan''
      else if isinf d then ''inf''
      else
        dec (decimals p d div 10 ^ p) @
        (if p = 0 then ''''
         else ''.'' @ replicate (p - length (dec (decimals p d mod 10 ^ p))) CHR ''0'' @
              dec (decimals p d mod 10 ^ p)))"

definition field :: "nat \<Rightarrow> nat \<Rightarrow> double \<Rightarrow> string" where
  "field w p d = replicate (w - length (fixed p d)) CHR '' '' @ fixed p d"

text \<open>
  The text of a \<^verbatim>\<open>printf\<close> call: the conversions consume the arguments from left to
  right; there is no text when the format is outside of the subset or an argument is
  missing.
\<close>

fun fill :: "directive list \<Rightarrow> double list \<Rightarrow> string option" where
  "fill [] args = Some []"
| "fill (Chr c # ds) args = map_option ((#) c) (fill ds args)"
| "fill (Fixed w p # ds) [] = None"
| "fill (Fixed w p # ds) (a # args) = map_option ((@) (field w p a)) (fill ds args)"

definition render :: "double printf \<Rightarrow> string option" where
  "render pr = (case pr of Printf fmt args \<Rightarrow> (case conversions Text fmt of None \<Rightarrow> None | Some ds \<Rightarrow> fill ds args))"

section \<open>The rows of a run\<close>

text \<open>
  The value of the offset \<open>h\<close> at the head of iteration \<open>k\<close> of the loop (it starts at the
  literal \<^verbatim>\<open>0.0\<close> and \<open>stepSize\<close> is added to it \<open>k\<close> times), the \<^verbatim>\<open>printf\<close> call that
  \<^verbatim>\<open>writeExtrapolation\<close> makes for the row of an offset, and the two header lines.
\<close>

definition offset :: "'a arith \<Rightarrow> nat \<Rightarrow> 'a" where
  "offset ar k = ((\<lambda>h. add ar h (stepSize ar)) ^^ k) (lit ar 0)"

definition row :: "'a arith \<Rightarrow> 'a \<Rightarrow> 'a \<Rightarrow> 'a \<Rightarrow> 'a \<Rightarrow> 'a \<Rightarrow> 'a printf" where
  "row ar a b c x h =
     Printf row_format
       [add ar x h, extrapolate ar a b c x h, func ar a b c (add ar x h),
        sub ar (func ar a b c (add ar x h)) (extrapolate ar a b c x h)]"

definition header :: "'a printf list" where
  "header = [Printf header_line1 [], Printf header_line2 []]"

section \<open>Comparison and a check of the offsets\<close>

text \<open>C's \<^verbatim>\<open><\<close> on doubles: false when an operand is a NaN.\<close>

definition flt :: "double \<Rightarrow> double \<Rightarrow> bool" where
  "flt x y \<longleftrightarrow>
     \<not> isnan x \<and> \<not> isnan y \<and>
     (if isinf x then sign x \<and> \<not> (isinf y \<and> sign y)
      else if isinf y then \<not> sign y
      else signif x * 2 ^ nat (expn x - min (expn x) (expn y))
             < signif y * 2 ^ nat (expn y - min (expn x) (expn y)))"

text \<open>
  \<open>walk n k s h\<close> follows the offset through \<open>n\<close> iterations of the loop, from the value
  \<open>h\<close> at the head of iteration \<open>k\<close>, with step \<open>s\<close>. It gives the offset after the
  last of them if, at the head of each, the offset is finite, not negative, has the
  decimals \<open>k\<close> (it prints as \<open>k / 1000\<close> with three decimals) and is below the next one.
\<close>

fun walk :: "nat \<Rightarrow> int \<Rightarrow> double \<Rightarrow> double \<Rightarrow> double option" where
  "walk 0 k s h = Some h"
| "walk (Suc n) k s h =
     (if isfinite h \<and> \<not> sign h \<and> decimals 3 h = k \<and> flt h (fadd h s)
      then walk n (k + 1) s (fadd h s) else None)"

text \<open>The double nearest to 0.001, which is \<open>stepSize\<close> (lemma \<open>step_val\<close>).\<close>

definition step_value :: double where
  "step_value = \<lparr>sign = False, expo = 1013, frac = 108086391056892\<rparr>"

section \<open>Properties of the arithmetic functions\<close>

text \<open>
  C1. For all coefficients, base points and offsets, \<open>extrapolate\<close> returns the value of
  \<open>func\<close> at the base point \<open>x\<close> plus \<open>h\<close> times the slope, and the slope is
  \<open>funcPrime\<close> at the offset point \<open>x + h\<close>: in every arithmetic, so for doubles, and
  in exact arithmetic, where the result differs from the tangent at \<open>x\<close> by \<open>2ah\<^sup>2\<close>.
\<close>

theorem extrapolate_formula:
  "extrapolate ar a b c x h =
     add ar (func ar a b c x) (mul ar h (funcPrime ar a b (add ar x h)))
   \<and> extrapolate ieee da db dc dx dh =
       fadd (func ieee da db dc dx) (fmul dh (funcPrime ieee da db (fadd dx dh)))
   \<and> extrapolate exact r s t u v = func exact r s t u + v * funcPrime exact r s (u + v)
   \<and> extrapolate exact r s t u v - (func exact r s t u + v * funcPrime exact r s u) = 2 * r * v\<^sup>2"
  by (simp add: extrapolate_def func_def funcPrime_def exact_def ieee_def Let_def
        power2_eq_square algebra_simps)

text \<open>
  C4. For all coefficients and points, \<open>func\<close> evaluates \<open>((a) \<cdot> p + b) \<cdot> p + c\<close>, in this
  order, in every arithmetic; in exact arithmetic that is \<open>a p\<^sup>2 + b p + c\<close>.
\<close>

theorem func_horner:
  "func ar a b c p = add ar (mul ar (add ar (mul ar a p) b) p) c
   \<and> func ieee da db dc dp = fadd (fmul (fadd (fmul da dp) db) dp) dc
   \<and> func exact r s t u = r * u\<^sup>2 + s * u + t"
  by (simp add: func_def exact_def ieee_def Let_def power2_eq_square algebra_simps)

text \<open>
  C5. For all \<open>a\<close>, \<open>b\<close> and points \<open>p\<close>, \<open>funcPrime\<close> evaluates \<open>(2 \<cdot> a) \<cdot> p + b\<close>; in
  exact arithmetic that is \<open>2 a p + b\<close>, the derivative at \<open>p\<close> of \<open>func\<close> whatever the
  constant coefficient \<open>c\<close> is.
\<close>

theorem funcPrime_slope:
  "funcPrime ar a b p = add ar (mul ar (mul ar (lit ar 2) a) p) b
   \<and> funcPrime exact r s u = 2 * r * u + s
   \<and> ((\<lambda>p. func exact r s t p) has_field_derivative funcPrime exact r s u) (at u)"
proof -
  have "((\<lambda>p. (r * p + s) * p + t) has_field_derivative (r * u + (r * u + s))) (at u)"
    by (auto intro!: derivative_eq_intros simp: algebra_simps)
  then show ?thesis
    by (simp add: func_def funcPrime_def exact_def Let_def algebra_simps)
qed

section \<open>Properties of binary64 arithmetic\<close>

subsection \<open>The number of binary digits\<close>

lemma bits_pos: "0 < n \<Longrightarrow> bits n = 1 + bits (n div 2)"
  by (subst bits.simps) simp

lemma bits_nonpos: "n \<le> 0 \<Longrightarrow> bits n = 0"
  by (subst bits.simps) simp

lemma bits_one: "bits 1 = 1"
  by (simp add: bits_pos bits_nonpos)

lemma bits_range: "2 ^ a \<le> n \<Longrightarrow> n < 2 ^ Suc a \<Longrightarrow> bits n = int a + 1"
proof (induction a arbitrary: n)
  case 0
  then have "n = 1" by simp
  then show ?case by (simp add: bits_one)
next
  case (Suc a)
  define P :: int where "P = 2 ^ a"
  have P: "0 < P" by (simp add: P_def)
  have lo: "2 * P \<le> n" and hi: "n < 4 * P" using Suc.prems by (simp_all add: P_def)
  have "P \<le> n div 2" using lo by arith
  moreover have "n div 2 < 2 * P" using hi by arith
  ultimately have "bits (n div 2) = int a + 1" by (intro Suc.IH) (simp_all add: P_def)
  moreover have "0 < n" using lo P by arith
  ultimately show ?case by (simp add: bits_pos)
qed

lemma bits_below: "0 < n \<Longrightarrow> n < 2 ^ a \<Longrightarrow> 1 \<le> bits n \<and> bits n \<le> int a"
proof (induction a arbitrary: n)
  case 0
  then show ?case by simp
next
  case (Suc a)
  show ?case
  proof (cases "n = 1")
    case True
    then show ?thesis by (simp add: bits_one)
  next
    case False
    define P :: int where "P = 2 ^ a"
    have hi: "n < 2 * P" using Suc.prems by (simp add: P_def)
    have "0 < n div 2" using False Suc.prems(1) by arith
    moreover have "n div 2 < P" using hi by arith
    ultimately have "1 \<le> bits (n div 2) \<and> bits (n div 2) \<le> int a"
      by (intro Suc.IH) (simp_all add: P_def)
    then show ?thesis using Suc.prems(1) by (simp add: bits_pos)
  qed
qed

lemma bits_shift: "0 < n \<Longrightarrow> bits (n * 2 ^ j) = bits n + int j"
proof (induction j)
  case 0
  then show ?case by simp
next
  case (Suc j)
  have "0 < n * 2 ^ Suc j" using Suc.prems by simp
  then have "bits (n * 2 ^ Suc j) = 1 + bits (n * 2 ^ Suc j div 2)" by (rule bits_pos)
  also have "n * 2 ^ Suc j div 2 = n * 2 ^ j" by simp
  finally show ?case using Suc by simp
qed

lemma bits_nonneg: "0 \<le> bits n"
proof (induction n rule: bits.induct)
  case (1 n)
  show ?case
  proof (cases "n \<le> 0")
    case True
    then show ?thesis by (simp add: bits_nonpos)
  next
    case False
    with "1.IH" show ?thesis by (simp add: bits_pos)
  qed
qed

lemma bits_ge1: "0 < n \<Longrightarrow> 1 \<le> bits n"
  using bits_nonneg [of "n div 2"] by (simp add: bits_pos)

lemma bits_lower: "0 < n \<Longrightarrow> 2 ^ nat (bits n - 1) \<le> n"
proof (induction n rule: bits.induct)
  case (1 n)
  show ?case
  proof (cases "n = 1")
    case True
    then show ?thesis by (simp add: bits_one)
  next
    case False
    then have h: "0 < n div 2" using "1.prems" by arith
    then have ih: "2 ^ nat (bits (n div 2) - 1) \<le> n div 2" using "1.IH" "1.prems" by simp
    have b: "1 \<le> bits (n div 2)" using h by (rule bits_ge1)
    have "nat (bits n - 1) = Suc (nat (bits (n div 2) - 1))"
      using b "1.prems" by (simp add: bits_pos [of n])
    moreover have "2 * (n div 2) \<le> n" by arith
    ultimately show ?thesis using ih by simp
  qed
qed

subsection \<open>The fields of a double\<close>

lemma frac_bound: "0 \<le> uint (frac d) \<and> uint (frac d) < 2 ^ 52"
  using uint_lt2p [of "frac d"] by simp

lemma expo_bound: "0 \<le> uint (expo d) \<and> uint (expo d) < 2048"
  using uint_lt2p [of "expo d"] by simp

lemma expo_cases:
  "expo d \<noteq> 0 \<Longrightarrow> 1 \<le> uint (expo d)"
  "expo d \<noteq> 2047 \<Longrightarrow> uint (expo d) \<le> 2046"
proof -
  show "expo d \<noteq> 0 \<Longrightarrow> 1 \<le> uint (expo d)"
    by (metis expo_bound uint_0_iff less_le not_less zless_imp_add1_zle zero_less_one add.left_neutral)
  assume ne: "expo d \<noteq> 2047"
  have "uint (expo d) \<noteq> 2047"
  proof
    assume "uint (expo d) = 2047"
    then have "word_of_int (uint (expo d)) = (word_of_int 2047 :: 11 word)" by simp
    then show False using ne by simp
  qed
  then show "uint (expo d) \<le> 2046" using expo_bound [of d] by arith
qed

lemma mant_bound: "0 \<le> mant d \<and> mant d < 2 ^ 53"
  using frac_bound [of d] by (simp add: mant_def)

lemma mant_normal: "expo d \<noteq> 0 \<Longrightarrow> 2 ^ 52 \<le> mant d"
  using frac_bound [of d] by (simp add: mant_def)

lemma mant_subnormal: "expo d = 0 \<Longrightarrow> mant d < 2 ^ 52 \<and> expn d = - 1074"
  using frac_bound [of d] by (simp add: mant_def expn_def)

lemma expn_bound: "isfinite d \<Longrightarrow> - 1074 \<le> expn d \<and> expn d \<le> 971"
  using expo_cases [of d] by (auto simp: expn_def isfinite_def)

lemma mant_zero: "mant d = 0 \<longleftrightarrow> fp_zero d"
proof (cases "expo d = 0")
  case True
  then show ?thesis by (simp add: mant_def fp_zero_def uint_0_iff)
next
  case False
  then show ?thesis using mant_normal [of d] by (simp add: fp_zero_def)
qed

lemma pack_unpack: "isfinite d \<Longrightarrow> pack (sign d) (mant d) (expn d) = d"
proof (cases "expo d = 0")
  case True
  then show ?thesis using frac_bound [of d] by (simp add: pack_def mant_def expn_def)
next
  case False
  assume "isfinite d"
  have "(2 ^ 52 + uint (frac d)) mod 2 ^ 52 = uint (frac d)"
    using frac_bound [of d] by simp
  then show ?thesis using False frac_bound [of d] by (simp add: pack_def mant_def expn_def)
qed

subsection \<open>Rounding a representable value\<close>

lemma pack_finite: "- 1074 \<le> e \<Longrightarrow> e \<le> 971 \<Longrightarrow> isfinite (pack s m e)"
proof -
  assume e: "- 1074 \<le> e" "e \<le> 971"
  have "(word_of_int (e + 1075) :: 11 word) \<noteq> 2047"
  proof
    assume "(word_of_int (e + 1075) :: 11 word) = 2047"
    then have "uint (word_of_int (e + 1075) :: 11 word) = uint (2047 :: 11 word)"
      by (simp only:)
    moreover have "uint (word_of_int (e + 1075) :: 11 word) = (e + 1075) mod 2 ^ 11"
      by (simp only: uint_word_of_int_eq take_bit_eq_mod len_bit0 len_num1) simp
    ultimately have "(e + 1075) mod 2048 = 2047" by simp
    then show False using e by simp
  qed
  then show ?thesis by (simp add: isfinite_def pack_def)
qed

lemma round_tail_finite:
  "isfinite (if z then zero s
             else if 971 < (if c then max a (- 1074) + 1 else max a (- 1074)) then infinity s
             else pack s m (if c then max a (- 1074) + 1 else max a (- 1074)))
   \<or> (if z then zero s
       else if 971 < (if c then max a (- 1074) + 1 else max a (- 1074)) then infinity s
       else pack s m (if c then max a (- 1074) + 1 else max a (- 1074))) = infinity s"
  by (simp add: pack_finite) (simp add: isfinite_def zero_def)

lemma round_tail_sign:
  "sign (if z then zero s else if c then infinity s else pack s m e) = s"
  by (simp add: zero_def infinity_def pack_def)

lemma round_double_finite_or_inf:
  "isfinite (round_double s p q e0) \<or> round_double s p q e0 = infinity s"
  unfolding round_double_def Let_def by (rule round_tail_finite)

lemma round_double_sign: "sign (round_double s p q e0) = s"
  unfolding round_double_def Let_def by (rule round_tail_sign)

lemma round_exact:
  assumes m: "0 < m" "m < 2 ^ 53" and norm: "2 ^ 52 \<le> m \<or> e = - 1074"
    and e: "- 1074 \<le> e" "e \<le> 971"
  shows "round_double s (m * 2 ^ j) 1 (e - int j) = pack s m e"
proof -
  let ?p = "m * 2 ^ j"
  have p: "0 < ?p" using m by simp
  have bp: "bits ?p = bits m + int j" using m by (simp add: bits_shift)
  have b1: "1 \<le> bits ?p" using p by (rule bits_ge1)
  have "2 ^ nat (bits ?p - 1) \<le> ?p" using p by (rule bits_lower)
  then have fl: "flog2 ?p 1 = bits ?p - 1"
    using b1 by (simp add: flog2_def bits_one Let_def)
  have bm: "bits m + e - 53 \<le> e \<and> (2 ^ 52 \<le> m \<longrightarrow> bits m = 53)"
  proof (cases "2 ^ 52 \<le> m")
    case True
    then have "bits m = int 52 + 1" using m by (intro bits_range) simp_all
    then show ?thesis by simp
  next
    case False
    then have "bits m \<le> int 52" using m bits_below [of m 52] by simp
    then show ?thesis using False by simp
  qed
  have mx: "max (flog2 ?p 1 + (e - int j) - 52) (- 1074) = e"
  proof (cases "2 ^ 52 \<le> m")
    case True
    then show ?thesis using bm e by (simp add: fl bp)
  next
    case False
    then have "e = - 1074" using norm by simp
    then show ?thesis using bm by (simp add: fl bp)
  qed
  have dv: "?p div 2 ^ j = m" "?p mod 2 ^ j = 0" by simp_all
  have ne: "m \<noteq> 2 ^ 53" using m by simp
  show ?thesis
    unfolding round_double_def Let_def mx
    using m e ne by (simp add: dv)
qed

subsection \<open>Sums and products with zero\<close>

lemma classes:
  "isfinite d \<Longrightarrow> \<not> isnan d" "isfinite d \<Longrightarrow> \<not> isinf d"
  "fp_zero d \<Longrightarrow> isfinite d" "\<not> isfinite d \<longleftrightarrow> isnan d \<or> isinf d"
  by (auto simp: isfinite_def isnan_def isinf_def fp_zero_def)

lemma zero_simps [simp]:
  "fp_zero (zero s)" "isfinite (zero s)" "sign (zero s) = s"
  "isnan default_nan" "\<not> isfinite default_nan" "isinf (infinity s)" "\<not> isnan (infinity s)"
  by (simp_all add: fp_zero_def isfinite_def zero_def isnan_def default_nan_def isinf_def infinity_def)

lemma quiet_nan [simp]: "isnan d \<Longrightarrow> isnan (quiet d)"
  by (simp add: isnan_def quiet_def or_eq_0_iff)

lemma quiet_sign [simp]: "sign (quiet d) = sign d"
  by (simp add: quiet_def)

lemma fp_zero_eq: "fp_zero d \<Longrightarrow> d = zero (sign d)"
  by (simp add: fp_zero_def zero_def)

lemma literal_zero: "literal 0 = zero False"
  by (simp add: literal_def round_double_def)

lemma fadd_zero_right:
  assumes f: "isfinite f" and z: "fp_zero z"
  shows "fadd f z = (if fp_zero f then zero (sign f \<and> sign z) else f)"
proof -
  have nn: "\<not> isnan f" "\<not> isnan z" "\<not> isinf f" "\<not> isinf z"
    using f z by (simp_all add: classes)
  have ez: "expn z = - 1074" and mz: "signif z = 0"
    using z by (simp_all add: expn_def signif_def mant_def fp_zero_def)
  have ef: "- 1074 \<le> expn f" "expn f \<le> 971" using expn_bound [OF f] by simp_all
  define j where "j = nat (expn f + 1074)"
  have mn: "min (expn f) (expn z) = - 1074" using ef ez by simp
  have unfold: "fadd f z =
      (if signif f * 2 ^ j = 0 then zero (sign f \<and> sign z)
       else round_double (signif f * 2 ^ j < 0) \<bar>signif f * 2 ^ j\<bar> 1 (- 1074))"
    unfolding fadd_def Let_def mn using nn by (simp add: mz ez j_def)
  show ?thesis
  proof (cases "fp_zero f")
    case True
    then have "signif f = 0" by (simp add: signif_def mant_zero)
    then show ?thesis using True by (simp add: unfold)
  next
    case False
    then have m0: "0 < mant f" using mant_bound [of f] mant_zero [of f] by arith
    then have t: "signif f \<noteq> 0" "(signif f * 2 ^ j < 0) = sign f"
      "\<bar>signif f * 2 ^ j\<bar> = mant f * 2 ^ j"
      by (simp_all add: signif_def abs_mult mult_less_0_iff)
    have norm: "2 ^ 52 \<le> mant f \<or> expn f = - 1074"
      using mant_normal [of f] mant_subnormal [of f] by blast
    have "round_double (sign f) (mant f * 2 ^ j) 1 (expn f - int j) = pack (sign f) (mant f) (expn f)"
      using m0 mant_bound [of f] norm ef by (intro round_exact) simp_all
    moreover have "expn f - int j = - 1074" using ef by (simp add: j_def)
    ultimately show ?thesis using False f by (simp add: unfold t pack_unpack)
  qed
qed

lemma fadd_zero_left:
  assumes f: "isfinite f" and z: "fp_zero z"
  shows "fadd z f = (if fp_zero f then zero (sign z \<and> sign f) else f)"
proof -
  have nn: "\<not> isnan f" "\<not> isnan z" "\<not> isinf f" "\<not> isinf z"
    using f z by (simp_all add: classes)
  have ez: "expn z = - 1074" and mz: "signif z = 0"
    using z by (simp_all add: expn_def signif_def mant_def fp_zero_def)
  have ef: "- 1074 \<le> expn f" "expn f \<le> 971" using expn_bound [OF f] by simp_all
  define j where "j = nat (expn f + 1074)"
  have mn: "min (expn z) (expn f) = - 1074" using ef ez by simp
  have unfold: "fadd z f =
      (if signif f * 2 ^ j = 0 then zero (sign z \<and> sign f)
       else round_double (signif f * 2 ^ j < 0) \<bar>signif f * 2 ^ j\<bar> 1 (- 1074))"
    unfolding fadd_def Let_def mn using nn by (simp add: mz ez j_def)
  show ?thesis
  proof (cases "fp_zero f")
    case True
    then have "signif f = 0" by (simp add: signif_def mant_zero)
    then show ?thesis using True by (simp add: unfold)
  next
    case False
    then have m0: "0 < mant f" using mant_bound [of f] mant_zero [of f] by arith
    then have t: "signif f \<noteq> 0" "(signif f * 2 ^ j < 0) = sign f"
      "\<bar>signif f * 2 ^ j\<bar> = mant f * 2 ^ j"
      by (simp_all add: signif_def abs_mult mult_less_0_iff)
    have norm: "2 ^ 52 \<le> mant f \<or> expn f = - 1074"
      using mant_normal [of f] mant_subnormal [of f] by blast
    have "round_double (sign f) (mant f * 2 ^ j) 1 (expn f - int j) = pack (sign f) (mant f) (expn f)"
      using m0 mant_bound [of f] norm ef by (intro round_exact) simp_all
    moreover have "expn f - int j = - 1074" using ef by (simp add: j_def)
    ultimately show ?thesis using False f by (simp add: unfold t pack_unpack)
  qed
qed

lemma fadd_nan_right: "isnan y \<Longrightarrow> isnan (fadd f y)"
  by (simp add: fadd_def)

lemma fadd_inf_left: "isinf f \<Longrightarrow> isfinite z \<Longrightarrow> fadd f z = f"
  by (auto simp: fadd_def isinf_def isnan_def isfinite_def)

lemma fmul_zero_left:
  "fp_zero z \<Longrightarrow> fmul z s =
     (if isfinite s then zero (sign z \<noteq> sign s) else if isnan s then quiet s else default_nan)"
proof (cases "isfinite s")
  case True
  assume z: "fp_zero z"
  then have "mant z = 0" by (simp add: mant_zero)
  then show ?thesis using True z by (simp add: fmul_def classes round_double_def)
next
  case False
  assume z: "fp_zero z"
  then show ?thesis using False by (auto simp: fmul_def classes)
qed

subsection \<open>A zero offset\<close>

lemma ieee_sel [simp]:
  "lit ieee = literal" "add ieee = fadd" "sub ieee = fsub" "mul ieee = fmul" "eq ieee = feq"
  by (simp_all add: ieee_def)

lemma round_double_not_nan: "\<not> isnan (round_double s p q e0)"
  using round_double_finite_or_inf [of s p q e0] by (auto simp: classes)

lemma fmul_finite_not_nan: "isfinite x \<Longrightarrow> isfinite y \<Longrightarrow> \<not> isnan (fmul x y)"
  by (simp add: fmul_def classes round_double_not_nan)

lemma fmul_zero_right: "isfinite a \<Longrightarrow> fp_zero z \<Longrightarrow> fmul a z = zero (sign a \<noteq> sign z)"
proof -
  assume a: "isfinite a" and z: "fp_zero z"
  then have "mant z = 0" by (simp add: mant_zero)
  then show ?thesis using a z by (simp add: fmul_def classes round_double_def)
qed

lemma fadd_not_nan: "\<not> isnan u \<Longrightarrow> isfinite b \<Longrightarrow> \<not> isnan (fadd u b)"
  by (simp add: fadd_def classes Let_def round_double_not_nan)

lemma fmul_not_nan:
  "\<not> isnan t \<Longrightarrow> isfinite x \<Longrightarrow> (isinf t \<longrightarrow> \<not> fp_zero x) \<Longrightarrow> \<not> isnan (fmul t x)"
  by (auto simp: fmul_def classes round_double_not_nan)

lemma func_not_nan:
  assumes "isfinite a" "isfinite b" "isfinite c" "isfinite x"
  shows "\<not> isnan (func ieee a b c x)"
proof -
  let ?u = "fmul a x"
  let ?t = "fadd ?u b"
  have u: "\<not> isnan ?u" using assms by (simp add: fmul_finite_not_nan)
  have t: "\<not> isnan ?t" using u assms by (simp add: fadd_not_nan)
  have "isfinite ?t" if z: "fp_zero x"
  proof -
    have "?u = zero (sign a \<noteq> sign x)" using assms z by (simp add: fmul_zero_right)
    then have "?t = (if fp_zero b then zero ((sign a \<noteq> sign x) \<and> sign b) else b)"
      using assms by (simp add: fadd_zero_left)
    then show ?thesis using assms by simp
  qed
  then have "isinf ?t \<longrightarrow> \<not> fp_zero x" by (auto simp: classes)
  then have "\<not> isnan (fmul ?t x)" using t assms by (intro fmul_not_nan)
  then have "\<not> isnan (fadd (fmul ?t x) c)" using assms by (intro fadd_not_nan)
  then show ?thesis by (simp add: func_def Let_def)
qed

lemma feq_refl_zero:
  "\<not> isnan f \<Longrightarrow> isfinite f \<Longrightarrow> fp_zero z \<Longrightarrow> feq (fadd f z) f"
  by (simp add: fadd_zero_right feq_def classes)

lemma zero_offset_iff:
  assumes "isfinite a" "isfinite b" "isfinite c" "isfinite x"
  shows "feq (extrapolate ieee a b c x (lit ieee 0)) (func ieee a b c x) \<longleftrightarrow>
           isfinite (funcPrime ieee a b (add ieee x (lit ieee 0)))"
proof -
  let ?f = "func ieee a b c x"
  let ?s = "funcPrime ieee a b (fadd x (zero False))"
  have ex: "extrapolate ieee a b c x (zero False) = fadd ?f (fmul (zero False) ?s)"
    by (simp add: extrapolate_def Let_def literal_zero)
  have nn: "\<not> isnan ?f" using assms by (rule func_not_nan)
  show ?thesis
  proof (cases "isfinite ?s")
    case True
    then have v: "fmul (zero False) ?s = zero (sign ?s)" by (simp add: fmul_zero_left)
    have "feq (fadd ?f (zero (sign ?s))) ?f"
    proof (cases "isfinite ?f")
      case True
      then show ?thesis using nn by (intro feq_refl_zero) simp_all
    next
      case False
      then have "isinf ?f" using nn by (simp add: classes)
      then have "fadd ?f (zero (sign ?s)) = ?f" by (intro fadd_inf_left) simp_all
      then show ?thesis using nn by (simp add: feq_def)
    qed
    then show ?thesis using True by (simp add: ex v literal_zero)
  next
    case False
    then have "isnan (fmul (zero False) ?s)" by (simp add: fmul_zero_left)
    then have "isnan (extrapolate ieee a b c x (zero False))" by (simp add: ex fadd_nan_right)
    then show ?thesis using False by (simp add: feq_def literal_zero)
  qed
qed

lemma plain_inputs:
  "isfinite (atof_ieee ''1'') \<and> isfinite (atof_ieee ''2'') \<and> isfinite (atof_ieee ''3'') \<and>
   isfinite (atof_ieee ''5'') \<and>
   isfinite (funcPrime ieee (atof_ieee ''1'') (atof_ieee ''2'') (add ieee (atof_ieee ''5'') (lit ieee 0)))"
  by code_simp

lemma overflow_inputs:
  "isfinite (atof_ieee ''1e308'') \<and> isfinite (atof_ieee ''0'') \<and> isfinite (atof_ieee ''1'') \<and>
   \<not> isfinite (funcPrime ieee (atof_ieee ''1e308'') (atof_ieee ''0'')
                 (add ieee (atof_ieee ''1'') (lit ieee 0)))"
  by code_simp




section \<open>Properties of the report writer and of the driver\<close>

lemma print_simps [simp]:
  "out (print p st) = out st @ [p]" "firstCall (print p st) = firstCall st"
  by (simp_all add: print_def)

lemma writeExtrapolation_later:
  "\<not> firstCall st \<Longrightarrow>
   writeExtrapolation ar xh approx direct st =
     st\<lparr>out := out st @ [Printf row_format [xh, approx, direct, sub ar direct approx]]\<rparr>"
  by (simp add: writeExtrapolation_def print_def)

lemma writeExtrapolation_first:
  "firstCall st \<Longrightarrow>
   writeExtrapolation ar xh approx direct st =
     st\<lparr>firstCall := False,
        out := out st @ header @ [Printf row_format [xh, approx, direct, sub ar direct approx]]\<rparr>"
  by (simp add: writeExtrapolation_def print_def header_def)

lemma steps_later:
  "\<not> firstCall st \<Longrightarrow> n = nat (stepLimit - i) \<Longrightarrow>
   steps ar a b c x i h st =
     st\<lparr>out := out st @
        map (\<lambda>k. row ar a b c x (((\<lambda>h. add ar h (stepSize ar)) ^^ k) h)) [0..<n]\<rparr>"
proof (induction n arbitrary: i h st)
  case 0
  then have "\<not> i < stepLimit" by simp
  then show ?case by (subst steps.simps) simp
next
  case (Suc n)
  then have lt: "i < stepLimit" and n: "n = nat (stepLimit - (i + 1))" by simp_all
  let ?st = "st\<lparr>out := out st @ [row ar a b c x h]\<rparr>"
  have nf: "\<not> firstCall ?st" using Suc.prems by simp
  have "steps ar a b c x i h st = steps ar a b c x (i + 1) (add ar h (stepSize ar)) ?st"
    using lt Suc.prems(1)
    by (subst steps.simps) (simp add: Let_def writeExtrapolation_later row_def)
  also have "\<dots> = ?st\<lparr>out := out ?st @
        map (\<lambda>k. row ar a b c x (((\<lambda>h. add ar h (stepSize ar)) ^^ k) (add ar h (stepSize ar)))) [0..<n]\<rparr>"
    by (rule Suc.IH [OF nf n])
  finally show ?case
    by (simp add: map_upt_Suc funpow_Suc_right del: upt_Suc funpow.simps)
qed

lemma steps_start:
  "steps ar a b c x 0 (lit ar 0) process_start =
     \<lparr>firstCall = False, out = header @ map (\<lambda>k. row ar a b c x (offset ar k)) [0..<1000]\<rparr>"
proof -
  let ?h = "lit ar 0"
  let ?st = "\<lparr>firstCall = False, out = header @ [row ar a b c x ?h]\<rparr> :: 'a process"
  have "steps ar a b c x 0 ?h process_start = steps ar a b c x 1 (add ar ?h (stepSize ar)) ?st"
    by (subst steps.simps)
       (simp add: Let_def writeExtrapolation_first row_def process_start_def stepLimit_def)
  also have "\<dots> = ?st\<lparr>out := out ?st @
        map (\<lambda>k. row ar a b c x (((\<lambda>h. add ar h (stepSize ar)) ^^ k) (add ar ?h (stepSize ar)))) [0..<999]\<rparr>"
    by (rule steps_later) (simp_all add: stepLimit_def)
  also have "\<dots> = \<lparr>firstCall = False, out = header @ map (\<lambda>k. row ar a b c x (offset ar k)) [0..<Suc 999]\<rparr>"
    unfolding map_upt_Suc by (simp add: offset_def funpow_Suc_right del: upt_Suc funpow.simps)
  finally show ?thesis by simp
qed

lemma offset_exact: "offset exact k = real k / 1000"
  by (induction k) (simp_all add: offset_def exact_def stepSize_def of_rat_divide field_simps)

lemma header_not_row:
  "Printf header_line1 [] \<noteq> Printf row_format args"
  "Printf header_line2 [] \<noteq> Printf row_format args"
  by (simp_all add: header_line1_def header_line2_def row_format_def)

lemma calls_later:
  "\<not> firstCall st \<Longrightarrow>
   fold (\<lambda>(xh, approx, direct). writeExtrapolation ar xh approx direct) calls st =
     st\<lparr>out := out st @
        map (\<lambda>(xh, approx, direct). Printf row_format [xh, approx, direct, sub ar direct approx]) calls\<rparr>"
proof (induction calls arbitrary: st)
  case Nil
  then show ?case by simp
next
  case (Cons r calls)
  obtain xh approx direct where r: "r = (xh, approx, direct)" by (cases r)
  let ?st = "writeExtrapolation ar xh approx direct st"
  have "\<not> firstCall ?st" using Cons.prems by (simp add: writeExtrapolation_later)
  from Cons.IH [OF this] show ?case
    using Cons.prems by (simp add: r writeExtrapolation_later)
qed

lemma atof_samples:
  "atof_ieee ''abc'' = zero False \<and> \<not> feq (atof_ieee ''4.9e-324'') (lit ieee 0) \<and>
   \<not> feq (atof_ieee ''1'') (lit ieee 0)"
  by code_simp

lemma calls_and_header:
  assumes "calls \<noteq> []"
  shows "fold (\<lambda>(xh, approx, direct). writeExtrapolation ar xh approx direct) calls process_start =
           \<lparr>firstCall = False,
            out = Printf header_line1 [] # Printf header_line2 [] #
                  map (\<lambda>(xh, approx, direct). Printf row_format [xh, approx, direct, sub ar direct approx]) calls\<rparr>
         \<and> Printf header_line1 [] \<notin>
             set (map (\<lambda>(xh, approx, direct). Printf row_format [xh, approx, direct, sub ar direct approx]) calls)
         \<and> Printf header_line2 [] \<notin>
             set (map (\<lambda>(xh, approx, direct). Printf row_format [xh, approx, direct, sub ar direct approx]) calls)"
proof -
  obtain r rest where c: "calls = r # rest" using assms by (cases calls) auto
  obtain xh approx direct where r: "r = (xh, approx, direct)" by (cases r)
  let ?st = "writeExtrapolation ar xh approx direct process_start"
  have st: "?st = \<lparr>firstCall = False, out = header @ [Printf row_format [xh, approx, direct, sub ar direct approx]]\<rparr>"
    by (simp add: writeExtrapolation_first process_start_def)
  then have "\<not> firstCall ?st" by simp
  from calls_later [OF this, of ar rest] have
    "fold (\<lambda>(xh, approx, direct). writeExtrapolation ar xh approx direct) calls process_start =
       ?st\<lparr>out := out ?st @
         map (\<lambda>(xh, approx, direct). Printf row_format [xh, approx, direct, sub ar direct approx]) rest\<rparr>"
    by (simp add: c r)
  then show ?thesis
    by (auto simp: st c r header_def header_not_row)
qed

lemma run_header:
  assumes "length argv = 5" and "\<not> eq ar (atof (argv ! 1)) (lit ar 0)"
  shows "\<exists>rows. out (snd (main ar atof argv)) = Printf header_line1 [] # Printf header_line2 [] # rows
           \<and> length rows = 1000
           \<and> Printf header_line1 [] \<notin> set rows \<and> Printf header_line2 [] \<notin> set rows"
proof -
  let ?rows = "map (\<lambda>k. row ar (atof (argv ! 1)) (atof (argv ! 2)) (atof (argv ! 3))
                      (atof (argv ! 4)) (offset ar k)) [0..<1000]"
  have "out (snd (main ar atof argv)) = Printf header_line1 [] # Printf header_line2 [] # ?rows"
    using assms by (simp add: main_def Let_def steps_start header_def)
  moreover have "length ?rows = 1000" by simp
  moreover have "Printf header_line1 [] \<notin> set ?rows" "Printf header_line2 [] \<notin> set ?rows"
    by (auto simp: row_def header_not_row)
  ultimately show ?thesis by blast
qed

text \<open>
  C6. Whatever the calls of \<open>writeExtrapolation\<close> a process makes, if there is at least
  one, its output is the two header lines, once, and then one row for each call, none of
  which is a header line; the flag \<open>firstCall\<close>, true when the process starts, is false
  from the first call on. So the output of a run of \<open>main\<close> that prints rows is the two
  header lines and then its rows, with no header line among them.
\<close>

theorem header_once:
  "(calls \<noteq> [] \<longrightarrow>
      fold (\<lambda>(xh, approx, direct). writeExtrapolation ar xh approx direct) calls process_start =
        \<lparr>firstCall = False,
         out = Printf header_line1 [] # Printf header_line2 [] #
               map (\<lambda>(xh, approx, direct). Printf row_format [xh, approx, direct, sub ar direct approx]) calls\<rparr>
      \<and> Printf header_line1 [] \<notin>
          set (map (\<lambda>(xh, approx, direct). Printf row_format [xh, approx, direct, sub ar direct approx]) calls)
      \<and> Printf header_line2 [] \<notin>
          set (map (\<lambda>(xh, approx, direct). Printf row_format [xh, approx, direct, sub ar direct approx]) calls))
   \<and> (length argv = 5 \<and> \<not> eq ar' (atof (argv ! 1)) (lit ar' 0) \<longrightarrow>
        (\<exists>rows. out (snd (main ar' atof argv)) =
                  Printf header_line1 [] # Printf header_line2 [] # rows
           \<and> length rows = 1000
           \<and> Printf header_line1 [] \<notin> set rows \<and> Printf header_line2 [] \<notin> set rows))"
  using calls_and_header [of calls ar] run_header [of argv ar' atof] by blast

theorem header_once_witness:
  "fold (\<lambda>(xh, approx, direct). writeExtrapolation exact xh approx direct)
     [(1, 2, 3), (4, 5, 7)] process_start =
     \<lparr>firstCall = False,
      out = [Printf header_line1 [], Printf header_line2 [],
             Printf row_format [1, 2, 3, 1], Printf row_format [4, 5, 7, 2]]\<rparr>
   \<and> (\<exists>rows. out (snd (main ieee atof_ieee [''q1'', ''1'', ''2'', ''3'', ''5''])) =
                Printf header_line1 [] # Printf header_line2 [] # rows
         \<and> length rows = 1000
         \<and> Printf header_line1 [] \<notin> set rows \<and> Printf header_line2 [] \<notin> set rows)"
  using header_once [of "[(1, 2, 3), (4, 5, 7)]" exact "[''q1'', ''1'', ''2'', ''3'', ''5'']"
      ieee atof_ieee]
    atof_samples
  by (simp add: exact_def)

text \<open>
  C7. When the number of arguments after the program name is not four, \<open>main\<close> prints
  the two lines of the usage message and nothing else, and returns 1.
\<close>

theorem main_wrong_argc:
  "length argv \<noteq> 5 \<Longrightarrow>
   main ar atof argv = (1, \<lparr>firstCall = True, out = [Printf usage_line1 [], Printf usage_line2 []]\<rparr>)"
  by (simp add: main_def process_start_def print_def Let_def)

theorem main_wrong_argc_witness:
  "main ieee atof_ieee [''q1'', ''1'', ''2'', ''3''] =
     (1, \<lparr>firstCall = True, out = [Printf usage_line1 [], Printf usage_line2 []]\<rparr>)
   \<and> main ieee atof_ieee [''q1'', ''1'', ''2'', ''3'', ''5'', ''8''] =
     (1, \<lparr>firstCall = True, out = [Printf usage_line1 [], Printf usage_line2 []]\<rparr>)"
  using main_wrong_argc [of "[''q1'', ''1'', ''2'', ''3'']" ieee atof_ieee]
    main_wrong_argc [of "[''q1'', ''1'', ''2'', ''3'', ''5'', ''8'']" ieee atof_ieee]
  by simp

subsection \<open>The error column in exact arithmetic\<close>

lemma sample_doubles:
  "atof_ieee ''1'' = \<lparr>sign = False, expo = 1023, frac = 0\<rparr> \<and>
   atof_ieee ''2'' = \<lparr>sign = False, expo = 1024, frac = 0\<rparr> \<and>
   atof_ieee ''3'' = \<lparr>sign = False, expo = 1024, frac = 2 ^ 51\<rparr> \<and>
   atof_ieee ''5'' = \<lparr>sign = False, expo = 1025, frac = 2 ^ 50\<rparr>"
  by code_simp

lemma sample_values:
  "valof (atof_ieee ''1'') = 1" "valof (atof_ieee ''2'') = 2"
  "valof (atof_ieee ''3'') = 3" "valof (atof_ieee ''5'') = 5"
  using sample_doubles by (simp_all add: valof_def signif_def mant_def expn_def)

lemma error_exact: "func exact a b c (x + h) - extrapolate exact a b c x h = - a * h\<^sup>2"
  by (simp add: extrapolate_def func_def funcPrime_def exact_def Let_def power2_eq_square algebra_simps)

lemma exact_sel: "add exact = (+)" "sub exact = (-)" "lit exact = of_rat" "eq exact = (=)"
  by (simp_all add: exact_def)

text \<open>
  C10. In exact arithmetic the error that the program reports is \<open>- a h\<^sup>2\<close>, whatever
  \<open>b\<close>, \<open>c\<close> and \<open>x\<close> are: the true value \<open>func\<close> at \<open>x + h\<close> minus the approximation
  \<open>extrapolate\<close> is \<open>- a h\<^sup>2\<close>; called as \<open>main\<close> calls it, \<open>writeExtrapolation\<close>
  appends to the output (after the header, on the first call) the row whose fourth value,
  which it computes as \<open>direct - approx\<close>, is \<open>- a h\<^sup>2\<close>; and the output of a run of
  \<open>main\<close> with \<open>a \<noteq> 0\<close> is the header and the 1000 rows for the offsets \<open>k / 1000\<close>,
  row \<open>k\<close> with the error \<open>- a (k / 1000)\<^sup>2\<close>.
\<close>

theorem row_error_exact:
  "func exact a b c (x + h) - extrapolate exact a b c x h = - a * h\<^sup>2
   \<and> out (writeExtrapolation exact (x + h) (extrapolate exact a b c x h)
             (func exact a b c (x + h)) st) =
       out st @ (if firstCall st then header else []) @
       [Printf row_format
          [x + h, extrapolate exact a b c x h, func exact a b c (x + h), - a * h\<^sup>2]]
   \<and> (length argv = 5 \<and> atof (argv ! 1) \<noteq> 0 \<longrightarrow>
        out (snd (main exact atof argv)) =
          header @
          map (\<lambda>k. Printf row_format
                 [atof (argv ! 4) + real k / 1000,
                  extrapolate exact (atof (argv ! 1)) (atof (argv ! 2)) (atof (argv ! 3))
                    (atof (argv ! 4)) (real k / 1000),
                  func exact (atof (argv ! 1)) (atof (argv ! 2)) (atof (argv ! 3))
                    (atof (argv ! 4) + real k / 1000),
                  - atof (argv ! 1) * (real k / 1000)\<^sup>2]) [0..<1000])"
proof -
  have w: "out (writeExtrapolation exact (x + h) (extrapolate exact a b c x h)
             (func exact a b c (x + h)) st) =
       out st @ (if firstCall st then header else []) @
       [Printf row_format
          [x + h, extrapolate exact a b c x h, func exact a b c (x + h), - a * h\<^sup>2]]"
    by (cases "firstCall st")
       (simp_all add: writeExtrapolation_first writeExtrapolation_later error_exact exact_sel)
  have r: "row exact a' b' c' x' (offset exact k) =
      Printf row_format
        [x' + real k / 1000, extrapolate exact a' b' c' x' (real k / 1000),
         func exact a' b' c' (x' + real k / 1000), - a' * (real k / 1000)\<^sup>2]" for a' b' c' x' k
    by (simp add: row_def offset_exact error_exact exact_sel)
  have "out (snd (main exact atof argv)) =
      header @ map (\<lambda>k. row exact (atof (argv ! 1)) (atof (argv ! 2)) (atof (argv ! 3))
                          (atof (argv ! 4)) (offset exact k)) [0..<1000]"
    if "length argv = 5" "atof (argv ! 1) \<noteq> 0"
    using that
    by (simp add: main_def Let_def exact_sel steps_start [of exact, unfolded exact_sel of_rat_0])
  then show ?thesis using w error_exact [of a b c x h] by (simp only: r) blast
qed

text \<open>
  The run of \<^verbatim>\<open>q1 1 2 3 5\<close> in exact arithmetic, on the values of the doubles that
  \<^verbatim>\<open>atof\<close> returns for the four texts: row \<open>k\<close> reports the error \<open>- (k / 1000)\<^sup>2\<close>.
\<close>

theorem row_error_exact_witness:
  "out (snd (main exact (\<lambda>s. valof (atof_ieee s)) [''q1'', ''1'', ''2'', ''3'', ''5''])) =
     header @
     map (\<lambda>k. Printf row_format
            [5 + real k / 1000, extrapolate exact 1 2 3 5 (real k / 1000),
             func exact 1 2 3 (5 + real k / 1000), - 1 * (real k / 1000)\<^sup>2]) [0..<1000]"
  using row_error_exact [of 1 2 3 5 0 process_start "[''q1'', ''1'', ''2'', ''3'', ''5'']"
      "\<lambda>s. valof (atof_ieee s)"]
  by (simp add: sample_values)

subsection \<open>The offsets of a run in binary64\<close>

lemma step_val: "stepSize ieee = step_value"
  unfolding stepSize_def step_value_def by code_simp

lemma step_value_finite: "isfinite step_value" "\<not> fp_zero step_value"
  by (simp_all add: step_value_def isfinite_def fp_zero_def)

lemma offset_one: "offset ieee 1 = step_value"
  by (simp add: offset_def step_val literal_zero fadd_zero_left step_value_finite)

lemma walk_append:
  "walk (m + n) k s h = (case walk m k s h of None \<Rightarrow> None | Some h' \<Rightarrow> walk n (k + int m) s h')"
proof (induction m arbitrary: k h)
  case 0
  show ?case by simp
next
  case (Suc m)
  show ?case using Suc [of "k + 1" "fadd h s"]
    by (simp add: algebra_simps cong: option.case_cong)
qed

lemma walk_sound:
  "walk n k s h = Some h' \<Longrightarrow> j < n \<Longrightarrow>
   isfinite (((\<lambda>h. fadd h s) ^^ j) h) \<and> \<not> sign (((\<lambda>h. fadd h s) ^^ j) h) \<and>
   decimals 3 (((\<lambda>h. fadd h s) ^^ j) h) = k + int j \<and>
   flt (((\<lambda>h. fadd h s) ^^ j) h) (((\<lambda>h. fadd h s) ^^ Suc j) h)"
proof (induction n arbitrary: k h j)
  case 0
  then show ?case by simp
next
  case (Suc n)
  from Suc.prems(1) have now: "isfinite h" "\<not> sign h" "decimals 3 h = k" "flt h (fadd h s)"
    and rest: "walk n (k + 1) s (fadd h s) = Some h'"
    by (simp_all split: if_splits)
  show ?case
  proof (cases j)
    case 0
    then show ?thesis using now by simp
  next
    case (Suc i)
    then have "i < n" using Suc.prems(2) by simp
    from Suc.IH [OF rest this] show ?thesis
      by (simp add: Suc funpow_Suc_right del: funpow.simps)
  qed
qed

text \<open>The thousand iterations, a hundred at a time.\<close>

lemma walk_0: "walk 100 0 step_value \<lparr>sign = False, expo = 0, frac = 0\<rparr> = Some \<lparr>sign = False, expo = 1019, frac = 2702159776422303\<rparr>"
  by code_simp

lemma walk_1: "walk 100 100 step_value \<lparr>sign = False, expo = 1019, frac = 2702159776422303\<rparr> = Some \<lparr>sign = False, expo = 1020, frac = 2702159776422303\<rparr>"
  by code_simp

lemma walk_2: "walk 100 200 step_value \<lparr>sign = False, expo = 1020, frac = 2702159776422303\<rparr> = Some \<lparr>sign = False, expo = 1021, frac = 900719925474103\<rparr>"
  by code_simp

lemma walk_3: "walk 100 300 step_value \<lparr>sign = False, expo = 1021, frac = 900719925474103\<rparr> = Some \<lparr>sign = False, expo = 1021, frac = 2702159776422303\<rparr>"
  by code_simp

lemma walk_4: "walk 100 400 step_value \<lparr>sign = False, expo = 1021, frac = 2702159776422303\<rparr> = Some \<lparr>sign = False, expo = 1022, frac = 3\<rparr>"
  by code_simp

lemma walk_5: "walk 100 500 step_value \<lparr>sign = False, expo = 1022, frac = 3\<rparr> = Some \<lparr>sign = False, expo = 1022, frac = 900719925474103\<rparr>"
  by code_simp

lemma walk_6: "walk 100 600 step_value \<lparr>sign = False, expo = 1022, frac = 900719925474103\<rparr> = Some \<lparr>sign = False, expo = 1022, frac = 1801439850948203\<rparr>"
  by code_simp

lemma walk_7: "walk 100 700 step_value \<lparr>sign = False, expo = 1022, frac = 1801439850948203\<rparr> = Some \<lparr>sign = False, expo = 1022, frac = 2702159776422303\<rparr>"
  by code_simp

lemma walk_8: "walk 100 800 step_value \<lparr>sign = False, expo = 1022, frac = 2702159776422303\<rparr> = Some \<lparr>sign = False, expo = 1022, frac = 3602879701896403\<rparr>"
  by code_simp

lemma walk_9: "walk 100 900 step_value \<lparr>sign = False, expo = 1022, frac = 3602879701896403\<rparr> = Some \<lparr>sign = False, expo = 1023, frac = 3\<rparr>"
  by code_simp

lemma walk_all:
  "walk 1000 0 step_value (zero False) = Some \<lparr>sign = False, expo = 1023, frac = 3\<rparr>"
proof -
  have w1: "walk 100 0 step_value \<lparr>sign = False, expo = 0, frac = 0\<rparr> = Some \<lparr>sign = False, expo = 1019, frac = 2702159776422303\<rparr>"
    by (rule walk_0)
  have w2: "walk 200 0 step_value \<lparr>sign = False, expo = 0, frac = 0\<rparr> = Some \<lparr>sign = False, expo = 1020, frac = 2702159776422303\<rparr>"
    using walk_append [of 100 100 0 step_value "\<lparr>sign = False, expo = 0, frac = 0\<rparr>"] w1 walk_1 by simp
  have w3: "walk 300 0 step_value \<lparr>sign = False, expo = 0, frac = 0\<rparr> = Some \<lparr>sign = False, expo = 1021, frac = 900719925474103\<rparr>"
    using walk_append [of 200 100 0 step_value "\<lparr>sign = False, expo = 0, frac = 0\<rparr>"] w2 walk_2 by simp
  have w4: "walk 400 0 step_value \<lparr>sign = False, expo = 0, frac = 0\<rparr> = Some \<lparr>sign = False, expo = 1021, frac = 2702159776422303\<rparr>"
    using walk_append [of 300 100 0 step_value "\<lparr>sign = False, expo = 0, frac = 0\<rparr>"] w3 walk_3 by simp
  have w5: "walk 500 0 step_value \<lparr>sign = False, expo = 0, frac = 0\<rparr> = Some \<lparr>sign = False, expo = 1022, frac = 3\<rparr>"
    using walk_append [of 400 100 0 step_value "\<lparr>sign = False, expo = 0, frac = 0\<rparr>"] w4 walk_4 by simp
  have w6: "walk 600 0 step_value \<lparr>sign = False, expo = 0, frac = 0\<rparr> = Some \<lparr>sign = False, expo = 1022, frac = 900719925474103\<rparr>"
    using walk_append [of 500 100 0 step_value "\<lparr>sign = False, expo = 0, frac = 0\<rparr>"] w5 walk_5 by simp
  have w7: "walk 700 0 step_value \<lparr>sign = False, expo = 0, frac = 0\<rparr> = Some \<lparr>sign = False, expo = 1022, frac = 1801439850948203\<rparr>"
    using walk_append [of 600 100 0 step_value "\<lparr>sign = False, expo = 0, frac = 0\<rparr>"] w6 walk_6 by simp
  have w8: "walk 800 0 step_value \<lparr>sign = False, expo = 0, frac = 0\<rparr> = Some \<lparr>sign = False, expo = 1022, frac = 2702159776422303\<rparr>"
    using walk_append [of 700 100 0 step_value "\<lparr>sign = False, expo = 0, frac = 0\<rparr>"] w7 walk_7 by simp
  have w9: "walk 900 0 step_value \<lparr>sign = False, expo = 0, frac = 0\<rparr> = Some \<lparr>sign = False, expo = 1022, frac = 3602879701896403\<rparr>"
    using walk_append [of 800 100 0 step_value "\<lparr>sign = False, expo = 0, frac = 0\<rparr>"] w8 walk_8 by simp
  have w10: "walk 1000 0 step_value \<lparr>sign = False, expo = 0, frac = 0\<rparr> = Some \<lparr>sign = False, expo = 1023, frac = 3\<rparr>"
    using walk_append [of 900 100 0 step_value "\<lparr>sign = False, expo = 0, frac = 0\<rparr>"] w9 walk_9 by simp
  then show ?thesis by (simp add: zero_def)
qed

lemma offsets_ieee:
  assumes "k < 1000"
  shows "isfinite (offset ieee k) \<and> \<not> sign (offset ieee k) \<and> decimals 3 (offset ieee k) = int k \<and>
         flt (offset ieee k) (offset ieee (Suc k))"
  using walk_sound [OF walk_all assms]
  by (simp add: offset_def step_val literal_zero del: funpow.simps)

text \<open>The decimals and the comparison, in terms of the values.\<close>

lemma valof_abs: "\<bar>valof d\<bar> = of_int (mant d) * 2 powi expn d"
proof -
  have "0 \<le> mant d" using mant_bound [of d] by simp
  then have "\<bar>of_int (signif d) :: real\<bar> = of_int (mant d)" by (simp add: signif_def)
  then show ?thesis by (simp add: valof_def abs_mult)
qed

lemma decimals_near: "\<bar>\<bar>valof d\<bar> * 10 ^ p - of_int (decimals p d)\<bar> \<le> 1 / 2"
proof -
  define n where "n = (if 0 \<le> expn d then mant d * 10 ^ p * 2 ^ nat (expn d) else mant d * 10 ^ p)"
  define q :: int where "q = (if 0 \<le> expn d then 1 else 2 ^ nat (- expn d))"
  define m where "m = n div q"
  define r where "r = n mod q"
  have q: "0 < q" by (simp add: q_def)
  have v: "\<bar>valof d\<bar> * 10 ^ p = of_int n / of_int q"
  proof (cases "0 \<le> expn d")
    case True
    then have "(2::real) powi expn d = 2 ^ nat (expn d)" by (simp add: power_int_def)
    then show ?thesis using True by (simp add: valof_abs n_def q_def)
  next
    case False
    then have "(2::real) powi expn d = 1 / 2 ^ nat (- expn d)"
      by (simp add: power_int_def field_simps)
    then show ?thesis using False by (simp add: valof_abs n_def q_def)
  qed
  have "n = q * m + r" by (simp add: m_def r_def)
  then have "(of_int n :: real) = of_int q * of_int m + of_int r"
    by (metis of_int_add of_int_mult)
  then have split: "of_int n / of_int q = (of_int m :: real) + of_int r / of_int q"
    using q by (simp add: field_simps)
  have r: "0 \<le> r" "r < q" using q by (simp_all add: r_def)
  have dec: "decimals p d = (if q < 2 * r \<or> (2 * r = q \<and> odd m) then m + 1 else m)"
    unfolding decimals_def Let_def n_def q_def m_def r_def by simp
  define x :: real where "x = of_int r / of_int q"
  have x: "0 \<le> x" "x < 1" using q r by (simp_all add: x_def)
  have val: "\<bar>valof d\<bar> * 10 ^ p = of_int m + x" by (simp add: v split x_def)
  show ?thesis
  proof (cases "q < 2 * r \<or> (2 * r = q \<and> odd m)")
    case True
    then have "q \<le> 2 * r" by auto
    then have "(of_int q :: real) \<le> 2 * of_int r" by (metis of_int_le_iff of_int_mult of_int_numeral)
    then have "1 / 2 \<le> x" using q by (simp add: x_def field_simps)
    moreover have "\<bar>valof d\<bar> * 10 ^ p - of_int (decimals p d) = x - 1"
      using True by (simp add: val dec)
    ultimately show ?thesis using x by simp
  next
    case False
    then have "2 * r \<le> q" by auto
    then have "2 * (of_int r :: real) \<le> of_int q" by (metis of_int_le_iff of_int_mult of_int_numeral)
    then have "x \<le> 1 / 2" using q by (simp add: x_def field_simps)
    moreover have "\<bar>valof d\<bar> * 10 ^ p - of_int (decimals p d) = x"
      using False by (simp add: val dec)
    ultimately show ?thesis using x by simp
  qed
qed

lemma valof_scaled:
  assumes "e \<le> expn d"
  shows "valof d = of_int (signif d * 2 ^ nat (expn d - e)) * 2 powi e"
proof -
  have "(2::real) powi (expn d - e) = 2 ^ nat (expn d - e)"
    using assms by (simp add: power_int_def)
  moreover have "(2::real) powi (expn d - e + e) = 2 powi (expn d - e) * 2 powi e"
    by (rule power_int_add) simp
  ultimately have "(2::real) powi expn d = 2 ^ nat (expn d - e) * 2 powi e" by simp
  then show ?thesis by (simp add: valof_def)
qed

lemma flt_valof:
  assumes "isfinite x" "isfinite y"
  shows "flt x y \<longleftrightarrow> valof x < valof y"
proof -
  let ?e = "min (expn x) (expn y)"
  have p: "(0::real) < 2 powi ?e" by simp
  have "valof x < valof y \<longleftrightarrow>
        (of_int (signif x * 2 ^ nat (expn x - ?e)) :: real) < of_int (signif y * 2 ^ nat (expn y - ?e))"
    using p by (simp only: valof_scaled [of ?e x] valof_scaled [of ?e y] min.cobounded1 min.cobounded2
        mult_less_cancel_right_pos)
  also have "\<dots> \<longleftrightarrow> signif x * 2 ^ nat (expn x - ?e) < signif y * 2 ^ nat (expn y - ?e)"
    by (rule of_int_less_iff)
  finally show ?thesis using assms by (simp add: flt_def classes)
qed

lemma offsets_ieee_real:
  assumes "k < 1000"
  shows "\<bar>valof (offset ieee k) - real k / 1000\<bar> \<le> 1 / 2000
         \<and> (Suc k < 1000 \<longrightarrow> valof (offset ieee k) < valof (offset ieee (Suc k)))"
proof -
  let ?h = "offset ieee k"
  from offsets_ieee [OF assms] have h: "isfinite ?h" "\<not> sign ?h" "decimals 3 ?h = int k"
    and lt: "flt ?h (offset ieee (Suc k))" by simp_all
  have "0 \<le> valof ?h" using h(2) mant_bound [of ?h] by (simp add: valof_def signif_def)
  then have "\<bar>valof ?h * 10 ^ 3 - of_int (int k)\<bar> \<le> 1 / 2"
    using decimals_near [of ?h 3] h(3) by simp
  then have near: "\<bar>valof ?h - real k / 1000\<bar> \<le> 1 / 2000" by (simp add: field_simps)
  have "valof ?h < valof (offset ieee (Suc k))" if "Suc k < 1000"
  proof -
    from offsets_ieee [OF that] have "isfinite (offset ieee (Suc k))" by simp
    with h(1) lt show ?thesis by (simp add: flt_valof)
  qed
  with near show ?thesis by simp
qed

subsection \<open>What atof makes of a text\<close>

lemma digits_run:
  "\<forall>c\<in>set ds. ok c \<Longrightarrow> (case g of [] \<Rightarrow> True | c # _ \<Rightarrow> \<not> ok c) \<Longrightarrow>
   digits b ok (ds @ g) v n = (foldl (\<lambda>v c. b * v + digit c) v ds, n + length ds, g)"
proof (induction ds arbitrary: v n)
  case Nil
  then show ?case by (cases g) simp_all
next
  case (Cons d ds)
  then show ?case by simp
qed

lemma digits_none: "(case t of [] \<Rightarrow> True | c # _ \<Rightarrow> \<not> ok c) \<Longrightarrow> digits b ok t v n = (v, n, t)"
  by (cases t) simp_all

lemma atof_integer_prefix:
  assumes t: "snd (sign_prefix (dropWhile isspace s)) = ds @ g" and ne: "ds \<noteq> []"
    and dg: "\<forall>c\<in>set ds. isdigit c"
    and g: "case g of [] \<Rightarrow> True | c # _ \<Rightarrow> c \<notin> set ''0123456789.eExX''"
  shows "atof_ieee s =
           round_double (fst (sign_prefix (dropWhile isspace s)))
             (foldl (\<lambda>v c. 10 * v + digit c) 0 ds) 1 0"
proof -
  obtain neg where st: "sign_prefix (dropWhile isspace s) = (neg, ds @ g)"
    using t by (cases "sign_prefix (dropWhile isspace s)") simp
  obtain d ds' where ds: "ds = d # ds'" using ne by (cases ds) auto
  have g': "case g of [] \<Rightarrow> True | c # _ \<Rightarrow> \<not> isdigit c"
    using g by (cases g) (simp_all add: isdigit_def)
  have hex: "\<not> prefix_ci [(CHR ''0'', CHR ''0''), (CHR ''x'', CHR ''X'')] (ds @ g)"
  proof (cases ds')
    case Nil
    then show ?thesis using g ds by (cases g) auto
  next
    case (Cons e es)
    then have "isdigit e" using dg ds by simp
    then show ?thesis using ds Cons by (auto simp: isdigit_def)
  qed
  let ?n = "foldl (\<lambda>v c. 10 * v + digit c) 0 ds"
  have run: "digits 10 isdigit (ds @ g) 0 0 = (?n, length ds, g)"
    using digits_run [OF dg g', of 10 0 0] by simp
  have sg: "significand 10 isdigit (ds @ g) = Some (?n, 0, g)"
    unfolding significand_def run using g ne by (cases g) auto
  have ex: "exponent ''eE'' g = 0"
    using g by (cases g) (auto simp: exponent_def)
  show ?thesis using st hex sg ex by (simp add: atof_ieee_def)
qed

lemma atof_no_number:
  assumes "case snd (sign_prefix (dropWhile isspace s)) of
             [] \<Rightarrow> True
           | c # r \<Rightarrow> \<not> isdigit c \<and> (c = CHR ''.'' \<longrightarrow> (case r of [] \<Rightarrow> True | e # _ \<Rightarrow> \<not> isdigit e))
                \<and> \<not> prefix_ci [(CHR ''i'', CHR ''I''), (CHR ''n'', CHR ''N''), (CHR ''f'', CHR ''F'')] (c # r)
                \<and> \<not> prefix_ci [(CHR ''n'', CHR ''N''), (CHR ''a'', CHR ''A''), (CHR ''n'', CHR ''N'')] (c # r)"
  shows "atof_ieee s = zero False"
proof -
  obtain neg t where st: "sign_prefix (dropWhile isspace s) = (neg, t)" by (cases "sign_prefix (dropWhile isspace s)")
  show ?thesis
  proof (cases t)
    case Nil
    then show ?thesis using st by (simp add: atof_ieee_def significand_def)
  next
    case (Cons c r)
    then have c: "\<not> isdigit c" "c = CHR ''.'' \<longrightarrow> (case r of [] \<Rightarrow> True | e # _ \<Rightarrow> \<not> isdigit e)"
      and inf: "\<not> prefix_ci [(CHR ''i'', CHR ''I''), (CHR ''n'', CHR ''N''), (CHR ''f'', CHR ''F'')] t"
        "\<not> prefix_ci [(CHR ''n'', CHR ''N''), (CHR ''a'', CHR ''A''), (CHR ''n'', CHR ''N'')] t"
      using assms st by simp_all
    have hex: "\<not> prefix_ci [(CHR ''0'', CHR ''0''), (CHR ''x'', CHR ''X'')] t"
      using c Cons by (auto simp: isdigit_def)
    have dg: "significand 10 isdigit t = None"
    proof (cases "c = CHR ''.''")
      case True
      then have "digits 10 isdigit r 0 0 = (0, 0, r)" using c by (intro digits_none) simp
      then show ?thesis using True c Cons by (simp add: significand_def)
    next
      case False
      then show ?thesis using c Cons by (simp add: significand_def)
    qed
    show ?thesis using st hex dg inf by (simp add: atof_ieee_def)
  qed
qed

lemma atof_letters:
  assumes "c \<in> set ''iInN''" "snd (sign_prefix (dropWhile isspace s)) = c # r"
  shows "atof_ieee s =
    (if prefix_ci [(CHR ''i'', CHR ''I''), (CHR ''n'', CHR ''N''), (CHR ''f'', CHR ''F'')] (c # r)
     then infinity (fst (sign_prefix (dropWhile isspace s)))
     else if prefix_ci [(CHR ''n'', CHR ''N''), (CHR ''a'', CHR ''A''), (CHR ''n'', CHR ''N'')] (c # r)
     then \<lparr>sign = fst (sign_prefix (dropWhile isspace s)), expo = 2047, frac = 2 ^ 51\<rparr>
     else zero False)"
proof -
  obtain neg where st: "sign_prefix (dropWhile isspace s) = (neg, c # r)"
    using assms by (cases "sign_prefix (dropWhile isspace s)") simp
  have "\<not> isdigit c" "c \<noteq> CHR ''.''" "c \<noteq> CHR ''0''" using assms by (auto simp: isdigit_def)
  then have "significand 10 isdigit (c # r) = None" by (simp add: significand_def)
  then show ?thesis using st \<open>c \<noteq> CHR ''0''\<close> by (simp add: atof_ieee_def)
qed

lemma atof_inf:
  assumes "prefix_ci [(CHR ''i'', CHR ''I''), (CHR ''n'', CHR ''N''), (CHR ''f'', CHR ''F'')] (snd (sign_prefix (dropWhile isspace s)))"
  shows "atof_ieee s = infinity (fst (sign_prefix (dropWhile isspace s)))"
proof -
  obtain c r where t: "snd (sign_prefix (dropWhile isspace s)) = c # r"
    using assms by (cases "snd (sign_prefix (dropWhile isspace s))") auto
  then have "c \<in> set ''iInN''" using assms by auto
  from atof_letters [OF this t] show ?thesis using assms t by simp
qed

lemma atof_nan:
  assumes "prefix_ci [(CHR ''n'', CHR ''N''), (CHR ''a'', CHR ''A''), (CHR ''n'', CHR ''N'')] (snd (sign_prefix (dropWhile isspace s)))"
  shows "isnan (atof_ieee s) \<and> sign (atof_ieee s) = fst (sign_prefix (dropWhile isspace s))"
proof -
  obtain c r where t: "snd (sign_prefix (dropWhile isspace s)) = c # r"
    using assms by (cases "snd (sign_prefix (dropWhile isspace s))") auto
  then have c: "c \<in> set ''iInN''" using assms by auto
  have "\<not> prefix_ci [(CHR ''i'', CHR ''I''), (CHR ''n'', CHR ''N''), (CHR ''f'', CHR ''F'')] (c # r)"
    using assms t by auto
  with atof_letters [OF c t] show ?thesis using assms t by (auto simp: isnan_def)
qed

lemma pack_nonzero:
  assumes m: "0 < m" and e: "- 1074 \<le> e" "e \<le> 971"
  shows "\<not> fp_zero (pack s m e)"
proof (cases "m < 2 ^ 52")
  case True
  have "uint (word_of_int m :: 52 word) = m mod 2 ^ 52"
    by (simp only: uint_word_of_int_eq take_bit_eq_mod len_bit0 len_num1) simp
  then have "uint (word_of_int m :: 52 word) \<noteq> 0" using m True by simp
  then have "(word_of_int m :: 52 word) \<noteq> 0" by (simp add: uint_0_iff)
  then show ?thesis using True m by (simp add: fp_zero_def pack_def)
next
  case False
  have "uint (word_of_int (e + 1075) :: 11 word) = (e + 1075) mod 2 ^ 11"
    by (simp only: uint_word_of_int_eq take_bit_eq_mod len_bit0 len_num1) simp
  then have "uint (word_of_int (e + 1075) :: 11 word) \<noteq> 0" using e by simp
  then have "(word_of_int (e + 1075) :: 11 word) \<noteq> 0" by (simp only: uint_0_iff not_False_eq_True)
  then show ?thesis using False by (simp add: fp_zero_def pack_def)
qed

lemma round_tail_nonzero:
  assumes "0 < m" "- 1074 \<le> e"
  shows "\<not> fp_zero (if 971 < (if m = 2 ^ 53 then e + 1 else e) then infinity s
                       else pack s (if m = 2 ^ 53 then 2 ^ 52 else m) (if m = 2 ^ 53 then e + 1 else e))"
  using assms by (auto simp: pack_nonzero) (simp_all add: fp_zero_def infinity_def)

lemma round_int_zero:
  assumes "0 \<le> p"
  shows "fp_zero (round_double s p 1 0) \<longleftrightarrow> p = 0"
proof (cases "p = 0")
  case True
  then show ?thesis by (simp add: round_double_def)
next
  case False
  then have p: "0 < p" using assms by simp
  have b1: "1 \<le> bits p" using p by (rule bits_ge1)
  have lo: "2 ^ nat (bits p - 1) \<le> p" using p by (rule bits_lower)
  have fl: "flog2 p 1 = bits p - 1"
    using b1 lo by (simp add: flog2_def bits_one Let_def)
  define e where "e = bits p - 53"
  have mx: "max (flog2 p 1 + 0 - 52) (- 1074) = e" using b1 by (simp add: fl e_def)
  define n where "n = (if 0 \<le> e then p else p * 2 ^ nat (0 - e))"
  define d :: int where "d = (if 0 \<le> e then 1 * 2 ^ nat (e - 0) else 1)"
  define m where "m = (if d < 2 * (n mod d) \<or> (2 * (n mod d) = d \<and> odd (n div d)) then n div d + 1 else n div d)"
  have d0: "0 < d" by (simp add: d_def)
  have q: "0 < n div d"
  proof (cases "0 \<le> e")
    case True
    then have "nat e \<le> nat (bits p - 1)" by (simp add: e_def)
    then have "(2 :: int) ^ nat e \<le> 2 ^ nat (bits p - 1)" by (intro power_increasing) simp_all
    then have "2 ^ nat e \<le> p" using lo by (rule order_trans)
    then have "d \<le> n" using True by (simp add: d_def n_def)
    then show ?thesis using d0 by (simp add: pos_imp_zdiv_pos_iff)
  next
    case False
    then show ?thesis using p by (simp add: d_def n_def)
  qed
  have m: "0 < m" using q by (auto simp: m_def)
  have "round_double s p 1 0 =
      (if 971 < (if m = 2 ^ 53 then e + 1 else e) then infinity s
       else pack s (if m = 2 ^ 53 then 2 ^ 52 else m) (if m = 2 ^ 53 then e + 1 else e))"
    unfolding round_double_def Let_def mx using False
    by (simp only: m_def n_def d_def if_False)
  moreover have "- 1074 \<le> e" using b1 by (simp add: e_def)
  ultimately show ?thesis using round_tail_nonzero [OF m, of e s] False by simp
qed

lemma digit_nonneg: "isdigit c \<Longrightarrow> 0 \<le> digit c"
proof -
  assume "isdigit c"
  then have "c = CHR ''0'' \<or> c = CHR ''1'' \<or> c = CHR ''2'' \<or> c = CHR ''3'' \<or> c = CHR ''4'' \<or>
      c = CHR ''5'' \<or> c = CHR ''6'' \<or> c = CHR ''7'' \<or> c = CHR ''8'' \<or> c = CHR ''9''"
    by (simp add: isdigit_def)
  then show ?thesis by (elim disjE) (simp_all add: digit_def)
qed

lemma digits_value_from:
  "\<forall>c\<in>set ds. isdigit c \<Longrightarrow> 0 \<le> v \<Longrightarrow> 0 \<le> foldl (\<lambda>v c. 10 * v + digit c) v ds"
proof (induction ds arbitrary: v)
  case Nil
  then show ?case by simp
next
  case (Cons d ds)
  then have "0 \<le> digit d" by (simp add: digit_nonneg)
  then have "0 \<le> 10 * v + digit d" using Cons.prems by simp
  then show ?case using Cons by simp
qed

lemma digits_value:
  "\<forall>c\<in>set ds. isdigit c \<Longrightarrow> 0 \<le> foldl (\<lambda>v c. 10 * v + digit c) 0 ds"
  by (rule digits_value_from) simp_all

lemma malformed_sample:
  "\<not> feq (atof_ieee ''1abc'') (literal 0) \<and> atof_ieee ''1abc'' = atof_ieee ''1''"
  by code_simp

lemma feq_zero: "feq d (literal 0) \<longleftrightarrow> fp_zero d"
  by (auto simp: feq_def literal_zero classes)

text \<open>
  C2. With four arguments and \<open>a\<close> not equal to zero, \<open>main\<close> returns 0 and has printed
  the header and exactly 1000 rows, row \<open>k\<close> for the offset \<open>h\<close> at the head of iteration
  \<open>k\<close>; the offset starts at the literal \<open>0.0\<close> and \<open>stepSize\<close> is added after each row.
  In exact arithmetic offset \<open>k\<close> is \<open>k / 1000\<close>. In binary64 each of the 1000 offsets is
  finite, not negative, within 0.0005 of \<open>k / 1000\<close> (its three decimals are those of
  \<open>k / 1000\<close>), and strictly below the next one.
\<close>

theorem main_success:
  assumes "length argv = 5" and "\<not> eq ar (atof (argv ! 1)) (lit ar 0)"
  shows "main ar atof argv =
           (0, \<lparr>firstCall = False,
                out = header @
                  map (\<lambda>k. row ar (atof (argv ! 1)) (atof (argv ! 2)) (atof (argv ! 3))
                             (atof (argv ! 4)) (offset ar k)) [0..<1000]\<rparr>)
         \<and> offset ar 0 = lit ar 0
         \<and> offset ar (Suc j) = add ar (offset ar j) (stepSize ar)
         \<and> offset exact j = real j / 1000
         \<and> (j < 1000 \<longrightarrow>
              isfinite (offset ieee j) \<and> \<not> sign (offset ieee j) \<and>
              decimals 3 (offset ieee j) = int j \<and>
              \<bar>valof (offset ieee j) - real j / 1000\<bar> \<le> 1 / 2000 \<and>
              flt (offset ieee j) (offset ieee (Suc j)) \<and>
              (Suc j < 1000 \<longrightarrow> valof (offset ieee j) < valof (offset ieee (Suc j))))"
proof -
  have "main ar atof argv =
           (0, \<lparr>firstCall = False,
                out = header @
                  map (\<lambda>k. row ar (atof (argv ! 1)) (atof (argv ! 2)) (atof (argv ! 3))
                             (atof (argv ! 4)) (offset ar k)) [0..<1000]\<rparr>)"
    using assms by (simp add: main_def Let_def steps_start)
  moreover have "offset ar 0 = lit ar 0" "offset ar (Suc j) = add ar (offset ar j) (stepSize ar)"
    by (simp_all add: offset_def)
  ultimately show ?thesis
    using offset_exact [of j] offsets_ieee [of j] offsets_ieee_real [of j] by blast
qed

theorem main_success_witness:
  "fst (main ieee atof_ieee [''q1'', ''1'', ''2'', ''3'', ''5'']) = 0
   \<and> length (out (snd (main ieee atof_ieee [''q1'', ''1'', ''2'', ''3'', ''5'']))) = 1002
   \<and> decimals 3 (offset ieee 999) = 999
   \<and> \<bar>valof (offset ieee 999) - 999 / 1000\<bar> \<le> 1 / 2000
   \<and> valof (offset ieee 998) < valof (offset ieee (Suc 998))"
proof -
  have run: "length [''q1'', ''1'', ''2'', ''3'', ''5''] = 5"
    "\<not> eq ieee (atof_ieee ([''q1'', ''1'', ''2'', ''3'', ''5''] ! 1)) (lit ieee 0)"
    using atof_samples by simp_all
  have "fst (main ieee atof_ieee [''q1'', ''1'', ''2'', ''3'', ''5'']) = 0
      \<and> length (out (snd (main ieee atof_ieee [''q1'', ''1'', ''2'', ''3'', ''5'']))) = 1002
      \<and> decimals 3 (offset ieee 999) = 999
      \<and> \<bar>valof (offset ieee 999) - 999 / 1000\<bar> \<le> 1 / 2000"
    using main_success [of "[''q1'', ''1'', ''2'', ''3'', ''5'']" ieee atof_ieee 999] run
    by (simp add: header_def)
  moreover have "Suc 998 < 1000" by simp
  then have "valof (offset ieee 998) < valof (offset ieee (Suc 998))"
    using main_success [of "[''q1'', ''1'', ''2'', ''3'', ''5'']" ieee atof_ieee 998] run
    by fastforce
  ultimately show ?thesis by blast
qed




section \<open>Properties of the printed rows\<close>

lemma dec_small: "n < 10 \<Longrightarrow> dec n = [''0123456789'' ! nat n]"
  by (subst dec.simps) simp

lemma dec_large: "\<not> n < 10 \<Longrightarrow> dec n = dec (n div 10) @ [''0123456789'' ! nat (n mod 10)]"
  by (subst dec.simps) simp

lemma digit_char: "0 \<le> n \<Longrightarrow> n < 10 \<Longrightarrow> isdigit (''0123456789'' ! nat n)"
  unfolding isdigit_def by (rule nth_mem) simp

lemma dec_digits: "0 \<le> n \<Longrightarrow> dec n \<noteq> [] \<and> (\<forall>c\<in>set (dec n). isdigit c)"
proof (induction n rule: dec.induct)
  case (1 n)
  show ?case
  proof (cases "n < 10")
    case True
    then show ?thesis using "1.prems" by (simp add: dec_small digit_char)
  next
    case False
    then have "0 \<le> n div 10" by simp
    with "1.IH" False have "\<forall>c\<in>set (dec (n div 10)). isdigit c" by simp
    moreover have "isdigit (''0123456789'' ! nat (n mod 10))" by (intro digit_char) simp_all
    ultimately show ?thesis using False by (simp add: dec_large)
  qed
qed

lemma dec_length: "0 \<le> n \<Longrightarrow> n < 10 ^ Suc k \<Longrightarrow> length (dec n) \<le> Suc k"
proof (induction k arbitrary: n)
  case 0
  then show ?case by (simp add: dec_small)
next
  case (Suc k)
  show ?case
  proof (cases "n < 10")
    case True
    then show ?thesis by (simp add: dec_small)
  next
    case False
    have "n div 10 < 10 ^ Suc k" using Suc.prems by simp
    moreover have "0 \<le> n div 10" using Suc.prems by simp
    ultimately have "length (dec (n div 10)) \<le> Suc k" by (intro Suc.IH)
    then show ?thesis using False by (simp add: dec_large)
  qed
qed

lemma decimals_nonneg: "0 \<le> decimals p d"
proof -
  have m: "0 \<le> mant d" using mant_bound [of d] by simp
  define n where "n = (if 0 \<le> expn d then mant d * 10 ^ p * 2 ^ nat (expn d) else mant d * 10 ^ p)"
  define q :: int where "q = (if 0 \<le> expn d then 1 else 2 ^ nat (- expn d))"
  have "0 \<le> n" "0 < q" using m by (simp_all add: n_def q_def)
  then have "0 \<le> n div q" by (simp add: pos_imp_zdiv_nonneg_iff)
  then have "0 \<le> (if q < 2 * (n mod q) \<or> (2 * (n mod q) = q \<and> odd (n div q)) then n div q + 1 else n div q)"
    by simp
  then show ?thesis unfolding decimals_def Let_def n_def q_def .
qed

lemma digit_of_char: "0 \<le> n \<Longrightarrow> n < 10 \<Longrightarrow> digit (''0123456789'' ! nat n) = n"
proof -
  assume "0 \<le> n" "n < 10"
  then have "n = 0 \<or> n = 1 \<or> n = 2 \<or> n = 3 \<or> n = 4 \<or> n = 5 \<or> n = 6 \<or> n = 7 \<or> n = 8 \<or> n = 9"
    by arith
  then show ?thesis by (elim disjE) (simp_all add: digit_def)
qed

lemma spell_from:
  "foldl (\<lambda>v c. 10 * v + digit c) v cs = v * 10 ^ length cs + foldl (\<lambda>v c. 10 * v + digit c) 0 cs"
proof (induction cs arbitrary: v)
  case Nil
  then show ?case by simp
next
  case (Cons c cs)
  show ?case
    using Cons [of "10 * v + digit c"] Cons [of "digit c"] by (simp add: algebra_simps)
qed

lemma dec_value: "0 \<le> n \<Longrightarrow> foldl (\<lambda>v c. 10 * v + digit c) 0 (dec n) = n"
proof (induction n rule: dec.induct)
  case (1 n)
  show ?case
  proof (cases "n < 10")
    case True
    then show ?thesis using "1.prems" by (simp add: dec_small digit_of_char)
  next
    case False
    then have "foldl (\<lambda>v c. 10 * v + digit c) 0 (dec (n div 10)) = n div 10"
      using "1.IH" "1.prems" by simp
    moreover have "digit (''0123456789'' ! nat (n mod 10)) = n mod 10"
      by (intro digit_of_char) simp_all
    ultimately show ?thesis using False by (simp add: dec_large)
  qed
qed

lemma zeros_value: "foldl (\<lambda>v c. 10 * v + digit c) 0 (replicate k CHR ''0'' @ cs) = foldl (\<lambda>v c. 10 * v + digit c) 0 cs"
  by (induction k) (simp_all add: digit_def)

lemma fixed_shape:
  assumes "isfinite d"
  shows "\<exists>ip fp. fixed 3 d = (if sign d then ''-'' else '''') @ ip @ ''.'' @ fp \<and> ip \<noteq> [] \<and>
           length fp = 3 \<and> (\<forall>c\<in>set (ip @ fp). isdigit c) \<and>
           foldl (\<lambda>v c. 10 * v + digit c) 0 (ip @ fp) = decimals 3 d"
proof -
  let ?D = "decimals 3 d"
  let ?ip = "dec (?D div 10 ^ 3)"
  let ?lo = "dec (?D mod 10 ^ 3)"
  let ?fp = "replicate (3 - length ?lo) CHR ''0'' @ ?lo"
  have D: "0 \<le> ?D" by (rule decimals_nonneg)
  then have ip: "?ip \<noteq> [] \<and> (\<forall>c\<in>set ?ip. isdigit c)" by (intro dec_digits) simp
  have lo: "?lo \<noteq> [] \<and> (\<forall>c\<in>set ?lo. isdigit c)" by (intro dec_digits) simp
  have "length ?lo \<le> Suc 2" by (intro dec_length) simp_all
  then have len: "length ?fp = 3" by simp
  have z: "isdigit CHR ''0''" by (simp add: isdigit_def)
  have dig: "\<forall>c\<in>set (?ip @ ?fp). isdigit c" using ip lo z by auto
  have hi: "foldl (\<lambda>v c. 10 * v + digit c) 0 ?ip = ?D div 10 ^ 3"
    using D by (intro dec_value) simp
  have low: "foldl (\<lambda>v c. 10 * v + digit c) 0 ?fp = ?D mod 10 ^ 3"
    unfolding zeros_value by (intro dec_value) simp
  have "foldl (\<lambda>v c. 10 * v + digit c) 0 (?ip @ ?fp) =
      foldl (\<lambda>v c. 10 * v + digit c) (?D div 10 ^ 3) ?fp"
    by (simp only: foldl_append hi)
  also have "\<dots> = (?D div 10 ^ 3) * 10 ^ length ?fp + ?D mod 10 ^ 3"
    by (subst spell_from) (simp only: low)
  also have "\<dots> = ?D" by (simp only: len) simp
  finally have val: "foldl (\<lambda>v c. 10 * v + digit c) 0 (?ip @ ?fp) = ?D" .
  have "fixed 3 d = (if sign d then ''-'' else '''') @ ?ip @ ''.'' @ ?fp"
    using assms by (simp add: fixed_def classes)
  then show ?thesis using ip len dig val by blast
qed

lemma fixed_special:
  "isinf d \<Longrightarrow> fixed p d = (if sign d then ''-inf'' else ''inf'')"
  "isnan d \<Longrightarrow> fixed p d = (if sign d then ''-nan'' else ''nan'')"
  by (auto simp: fixed_def isinf_def isnan_def)

lemma conversions_row:
  "conversions Text row_format = Some [Fixed 7 3, Fixed 19 3, Fixed 12 3, Fixed 10 3, Chr newline]"
  by (simp add: row_format_def newline_def isdigit_def digit_def)

lemma render_row:
  "render (Printf row_format [xh, approx, direct, err]) =
     Some (field 7 3 xh @ field 19 3 approx @ field 12 3 direct @ field 10 3 err @ [newline])"
  by (simp add: render_def conversions_row)

lemma field_length: "length (field w p d) = max w (length (fixed p d))"
  by (simp add: field_def)

lemma rows_of_run:
  assumes "length argv = 5" and "\<not> eq ar (atof (argv ! 1)) (lit ar 0)"
  shows "drop 2 (out (snd (main ar atof argv))) =
           map (\<lambda>k. row ar (atof (argv ! 1)) (atof (argv ! 2)) (atof (argv ! 3))
                      (atof (argv ! 4)) (offset ar k)) [0..<1000]"
  using assms by (simp add: main_def Let_def steps_start header_def)

text \<open>
  C9, as amended. Every data row of a run is a \<^verbatim>\<open>printf\<close> of four values with the format
  \<^verbatim>\<open>%7.3f%19.3f%12.3f%10.3f\<close> and a newline: its text is the four fields, for the minimum
  widths 7, 19, 12 and 10, and then the newline; in row \<open>k\<close> the four values are the
  position \<open>x + h\<close>, the approximation, the true value and the error (the true value minus
  the approximation) for the offset \<open>h\<close> of iteration \<open>k\<close>. A field is right-aligned, padded with
  spaces on the left; it is as wide as its minimum width or, when the value needs more
  characters, as the value. A finite value is printed in fixed point with exactly three
  decimals: a minus sign when the sign bit is set, at least one digit, a point and three
  digits, and the digits spell the absolute value times 1000, rounded to an integer. An
  infinity is printed as \<^verbatim>\<open>inf\<close> and a NaN as \<^verbatim>\<open>nan\<close>, after a minus sign when the sign
  bit is set.
\<close>

theorem row_layout:
  "(length argv = 5 \<and> \<not> eq ieee (atof (argv ! 1)) (lit ieee 0) \<longrightarrow>
      (\<forall>p \<in> set (drop 2 (out (snd (main ieee atof argv)))).
         \<exists>xh approx direct err.
           p = Printf row_format [xh, approx, direct, err] \<and>
           render p = Some (field 7 3 xh @ field 19 3 approx @ field 12 3 direct @
                            field 10 3 err @ [newline])))
   \<and> (length argv = 5 \<and> \<not> eq ieee (atof (argv ! 1)) (lit ieee 0) \<longrightarrow>
        map render (drop 2 (out (snd (main ieee atof argv)))) =
          map (\<lambda>k. Some
                 (field 7 3 (fadd (atof (argv ! 4)) (offset ieee k)) @
                  field 19 3 (extrapolate ieee (atof (argv ! 1)) (atof (argv ! 2)) (atof (argv ! 3))
                                (atof (argv ! 4)) (offset ieee k)) @
                  field 12 3 (func ieee (atof (argv ! 1)) (atof (argv ! 2)) (atof (argv ! 3))
                                (fadd (atof (argv ! 4)) (offset ieee k))) @
                  field 10 3 (fsub (func ieee (atof (argv ! 1)) (atof (argv ! 2)) (atof (argv ! 3))
                                      (fadd (atof (argv ! 4)) (offset ieee k)))
                                   (extrapolate ieee (atof (argv ! 1)) (atof (argv ! 2))
                                      (atof (argv ! 3)) (atof (argv ! 4)) (offset ieee k))) @
                  [newline])) [0..<1000])
   \<and> field w p d = replicate (w - length (fixed p d)) CHR '' '' @ fixed p d
   \<and> length (field w p d) = max w (length (fixed p d))
   \<and> (isfinite d \<longrightarrow>
        (\<exists>ip fp. fixed 3 d = (if sign d then ''-'' else []) @ ip @ ''.'' @ fp \<and> ip \<noteq> [] \<and>
           length fp = 3 \<and> (\<forall>c\<in>set (ip @ fp). isdigit c) \<and>
           foldl (\<lambda>v c. 10 * v + digit c) 0 (ip @ fp) = decimals 3 d)
        \<and> \<bar>\<bar>valof d\<bar> * 1000 - of_int (decimals 3 d)\<bar> \<le> 1 / 2)
   \<and> (isinf d \<longrightarrow> fixed p d = (if sign d then ''-inf'' else ''inf''))
   \<and> (isnan d \<longrightarrow> fixed p d = (if sign d then ''-nan'' else ''nan''))"
proof -
  have "\<exists>xh approx direct err.
           p = Printf row_format [xh, approx, direct, err] \<and>
           render p = Some (field 7 3 xh @ field 19 3 approx @ field 12 3 direct @
                            field 10 3 err @ [newline])"
    if len: "length argv = 5" and ne: "\<not> eq ieee (atof (argv ! 1)) (lit ieee 0)"
      and mem: "p \<in> set (drop 2 (out (snd (main ieee atof argv))))" for p
  proof -
    from mem obtain k where "p = row ieee (atof (argv ! 1)) (atof (argv ! 2)) (atof (argv ! 3))
                      (atof (argv ! 4)) (offset ieee k)"
      unfolding rows_of_run [of argv ieee atof, OF len ne] by auto
    then show ?thesis unfolding row_def using render_row by blast
  qed
  moreover have "map render (drop 2 (out (snd (main ieee atof argv)))) =
          map (\<lambda>k. Some
                 (field 7 3 (fadd (atof (argv ! 4)) (offset ieee k)) @
                  field 19 3 (extrapolate ieee (atof (argv ! 1)) (atof (argv ! 2)) (atof (argv ! 3))
                                (atof (argv ! 4)) (offset ieee k)) @
                  field 12 3 (func ieee (atof (argv ! 1)) (atof (argv ! 2)) (atof (argv ! 3))
                                (fadd (atof (argv ! 4)) (offset ieee k))) @
                  field 10 3 (fsub (func ieee (atof (argv ! 1)) (atof (argv ! 2)) (atof (argv ! 3))
                                      (fadd (atof (argv ! 4)) (offset ieee k)))
                                   (extrapolate ieee (atof (argv ! 1)) (atof (argv ! 2))
                                      (atof (argv ! 3)) (atof (argv ! 4)) (offset ieee k))) @
                  [newline])) [0..<1000]"
    if len: "length argv = 5" and ne: "\<not> eq ieee (atof (argv ! 1)) (lit ieee 0)"
    unfolding rows_of_run [of argv ieee atof, OF len ne]
    by (simp add: row_def render_row)
  moreover have "\<bar>\<bar>valof d\<bar> * 1000 - of_int (decimals 3 d)\<bar> \<le> 1 / 2"
    using decimals_near [of d 3] by simp
  moreover have "field w p d = replicate (w - length (fixed p d)) CHR '' '' @ fixed p d"
    "length (field w p d) = max w (length (fixed p d))"
    by (simp_all add: field_def)
  moreover have "isinf d \<longrightarrow> fixed p d = (if sign d then ''-inf'' else ''inf'')"
    "isnan d \<longrightarrow> fixed p d = (if sign d then ''-nan'' else ''nan'')"
    by (simp_all add: fixed_special)
  moreover have "isfinite d \<longrightarrow>
      (\<exists>ip fp. fixed 3 d = (if sign d then ''-'' else []) @ ip @ ''.'' @ fp \<and> ip \<noteq> [] \<and>
           length fp = 3 \<and> (\<forall>c\<in>set (ip @ fp). isdigit c) \<and>
           foldl (\<lambda>v c. 10 * v + digit c) 0 (ip @ fp) = decimals 3 d)"
    using fixed_shape [of d] by simp
  ultimately show ?thesis by blast
qed

lemma second_row:
  "render (row ieee (atof_ieee ''1'') (atof_ieee ''2'') (atof_ieee ''3'') (atof_ieee ''5'')
             (offset ieee 1)) =
     Some (''  5.001'' @ ''             38.012'' @ ''      38.012'' @ ''    -0.000'' @ [newline])
   \<and> isfinite (atof_ieee ''5'')"
  unfolding offset_one by code_simp

lemma second_row_printed:
  "row ieee (atof_ieee ''1'') (atof_ieee ''2'') (atof_ieee ''3'') (atof_ieee ''5'') (offset ieee 1)
     \<in> set (drop 2 (out (snd (main ieee atof_ieee [''q1'', ''1'', ''2'', ''3'', ''5'']))))"
proof -
  have "(1::nat) \<in> set [0..<1000]" by simp
  then have "(\<lambda>k. row ieee (atof_ieee ''1'') (atof_ieee ''2'') (atof_ieee ''3'') (atof_ieee ''5'')
               (offset ieee k)) 1
      \<in> set (map (\<lambda>k. row ieee (atof_ieee ''1'') (atof_ieee ''2'') (atof_ieee ''3'')
                          (atof_ieee ''5'') (offset ieee k)) [0..<1000])"
    unfolding set_map by (rule imageI)
  then show ?thesis
    using atof_samples
    by (simp add: rows_of_run [of "[''q1'', ''1'', ''2'', ''3'', ''5'']" ieee atof_ieee])
qed

lemma overflow_row:
  "render (row ieee (atof_ieee ''1e308'') (atof_ieee ''1'') (atof_ieee ''1'') (atof_ieee ''10'')
             (offset ieee 1)) =
     Some ('' 10.001'' @ ''                inf'' @ ''         inf'' @ ''      -nan'' @ [newline])
   \<and> render (row ieee (atof_ieee ''nan'') (atof_ieee ''1'') (atof_ieee ''1'') (atof_ieee ''1'')
             (offset ieee 1)) =
     Some (''  1.001'' @ ''                nan'' @ ''         nan'' @ ''       nan'' @ [newline])
   \<and> isinf (atof_ieee ''-inf'') \<and> sign (atof_ieee ''-inf'')
   \<and> isnan (fsub (atof_ieee ''inf'') (atof_ieee ''inf''))
   \<and> sign (fsub (atof_ieee ''inf'') (atof_ieee ''inf''))"
  unfolding offset_one by code_simp

theorem row_layout_witness:
  "(\<exists>xh approx direct err.
      row ieee (atof_ieee ''1'') (atof_ieee ''2'') (atof_ieee ''3'') (atof_ieee ''5'')
        (offset ieee 1) = Printf row_format [xh, approx, direct, err] \<and>
      render (row ieee (atof_ieee ''1'') (atof_ieee ''2'') (atof_ieee ''3'') (atof_ieee ''5'')
                (offset ieee 1)) =
        Some (field 7 3 xh @ field 19 3 approx @ field 12 3 direct @ field 10 3 err @ [newline]))
   \<and> (\<exists>ip fp. fixed 3 (atof_ieee ''5'') =
          (if sign (atof_ieee ''5'') then ''-'' else []) @ ip @ ''.'' @ fp \<and> ip \<noteq> [] \<and>
          length fp = 3 \<and> (\<forall>c\<in>set (ip @ fp). isdigit c) \<and>
          foldl (\<lambda>v c. 10 * v + digit c) 0 (ip @ fp) = decimals 3 (atof_ieee ''5''))
   \<and> \<bar>\<bar>valof (atof_ieee ''5'')\<bar> * 1000 - of_int (decimals 3 (atof_ieee ''5''))\<bar> \<le> 1 / 2
   \<and> render (row ieee (atof_ieee ''1'') (atof_ieee ''2'') (atof_ieee ''3'') (atof_ieee ''5'')
               (offset ieee 1)) =
       Some (''  5.001'' @ ''             38.012'' @ ''      38.012'' @ ''    -0.000'' @ [newline])
   \<and> map render (drop 2 (out (snd (main ieee atof_ieee [''q1'', ''1'', ''2'', ''3'', ''5''])))) ! 1 =
       Some (''  5.001'' @ ''             38.012'' @ ''      38.012'' @ ''    -0.000'' @ [newline])
   \<and> fixed 3 (atof_ieee ''-inf'') = ''-inf''
   \<and> fixed 3 (fsub (atof_ieee ''inf'') (atof_ieee ''inf'')) = ''-nan''
   \<and> render (row ieee (atof_ieee ''1e308'') (atof_ieee ''1'') (atof_ieee ''1'') (atof_ieee ''10'')
               (offset ieee 1)) =
       Some ('' 10.001'' @ ''                inf'' @ ''         inf'' @ ''      -nan'' @ [newline])"
proof -
  note layout = row_layout [of "[''q1'', ''1'', ''2'', ''3'', ''5'']" atof_ieee 7 3 "atof_ieee ''5''"]
  have run: "length [''q1'', ''1'', ''2'', ''3'', ''5''] = 5 \<and>
      \<not> eq ieee (atof_ieee ([''q1'', ''1'', ''2'', ''3'', ''5''] ! 1)) (lit ieee 0)"
    using atof_samples by simp
  have finite: "(\<exists>xh approx direct err.
      row ieee (atof_ieee ''1'') (atof_ieee ''2'') (atof_ieee ''3'') (atof_ieee ''5'')
        (offset ieee 1) = Printf row_format [xh, approx, direct, err] \<and>
      render (row ieee (atof_ieee ''1'') (atof_ieee ''2'') (atof_ieee ''3'') (atof_ieee ''5'')
                (offset ieee 1)) =
        Some (field 7 3 xh @ field 19 3 approx @ field 12 3 direct @ field 10 3 err @ [newline]))
   \<and> (\<exists>ip fp. fixed 3 (atof_ieee ''5'') =
          (if sign (atof_ieee ''5'') then ''-'' else []) @ ip @ ''.'' @ fp \<and> ip \<noteq> [] \<and>
          length fp = 3 \<and> (\<forall>c\<in>set (ip @ fp). isdigit c) \<and>
          foldl (\<lambda>v c. 10 * v + digit c) 0 (ip @ fp) = decimals 3 (atof_ieee ''5''))
   \<and> \<bar>\<bar>valof (atof_ieee ''5'')\<bar> * 1000 - of_int (decimals 3 (atof_ieee ''5''))\<bar> \<le> 1 / 2"
    using layout run second_row_printed second_row by blast
  have inf: "fixed 3 (atof_ieee ''-inf'') = ''-inf''"
    using row_layout [of "[]" atof_ieee 7 3 "atof_ieee ''-inf''"] overflow_row by simp
  have nan: "fixed 3 (fsub (atof_ieee ''inf'') (atof_ieee ''inf'')) = ''-nan''"
    using row_layout [of "[]" atof_ieee 7 3 "fsub (atof_ieee ''inf'') (atof_ieee ''inf'')"]
      overflow_row by simp
  have "map render (drop 2 (out (snd (main ieee atof_ieee [''q1'', ''1'', ''2'', ''3'', ''5''])))) ! 1 =
      render (row ieee (atof_ieee ''1'') (atof_ieee ''2'') (atof_ieee ''3'') (atof_ieee ''5'')
                (offset ieee 1))"
    using layout run by (simp add: row_def render_row del: upt_Suc)
  then have line: "map render (drop 2 (out (snd (main ieee atof_ieee [''q1'', ''1'', ''2'', ''3'', ''5''])))) ! 1 =
      Some (''  5.001'' @ ''             38.012'' @ ''      38.012'' @ ''    -0.000'' @ [newline])"
    using second_row by simp
  show ?thesis using finite line inf nan second_row overflow_row by blast
qed

text \<open>
  C9 as stated fails for \<^verbatim>\<open>q1 1 1 1 1000\<close>: in its second row the position 1000.001
  takes 8 characters, not 7, and the row is one character longer than the four widths.
\<close>

theorem row_layout_counterexample:
  "render (row ieee (atof_ieee ''1'') (atof_ieee ''1'') (atof_ieee ''1'') (atof_ieee ''1000'')
             (offset ieee 1)) =
     Some (''1000.001'' @ ''        1001003.001'' @ '' 1001003.001'' @ ''    -0.000'' @ [newline])
   \<and> length (field 7 3 (add ieee (atof_ieee ''1000'') (offset ieee 1))) = 8"
  unfolding offset_one by code_simp

end
